theory Spec2Isabelle
  imports Main "HOL-Library.Sublist"
begin

section \<open>JavaScript strings\<close>

text \<open>
  A JavaScript string is a sequence of UTF-16 code units, and \<open>length\<close>, \<open>substring\<close>,
  \<open>charCodeAt\<close> and the regular expressions of the scripts (none has the \<open>u\<close> flag) all
  work on code units. A string is therefore modelled as the list of its code units, each a
  natural number; \<open>str\<close> turns an ASCII literal into that form.

  JavaScript numbers are IEEE doubles. The numbers the scripts compute are non-negative
  integers (a chapter order, a count, a length), and on integers up to \<open>2^53\<close> the
  arithmetic of doubles is exact; in that range they are modelled as natural numbers.
  Counts and lengths always lie in it. A chapter number is read from a filename and can
  be any digit string: beyond \<open>2^53\<close> the code rounds to the nearest double and the
  natural numbers of the model no longer give its result.
\<close>

type_synonym jsstring = "nat list"

definition str :: "string \<Rightarrow> jsstring" where
  "str s = map of_char s"

text \<open>The character classes \<open>\d\<close> and \<open>[A-Z]\<close> of a regular expression without flags.\<close>

definition is_digit :: "nat \<Rightarrow> bool" where
  "is_digit c \<longleftrightarrow> 48 \<le> c \<and> c \<le> 57"

definition is_upper :: "nat \<Rightarrow> bool" where
  "is_upper c \<longleftrightarrow> 65 \<le> c \<and> c \<le> 90"

text \<open>
  \<open>parseInt(ds, 10)\<close> on a non-empty string of decimal digits: the number the digits
  denote. This is the value of the code as long as the number is at most \<open>2^53\<close>; a
  larger one the code rounds to a double.
\<close>

definition parseInt10 :: "jsstring \<Rightarrow> nat" where
  "parseInt10 ds = foldl (\<lambda>a d. 10 * a + (d - 48)) 0 ds"

section \<open>sync-chapters.js: the order key\<close>

text \<open>
  \<open>filename.match(/Chap_(\d+)(?:-([A-Z]))?/)\<close>. The expression is not anchored, so the
  engine tries every start position from the left and returns the first match.
  \<open>order_match_here\<close> is the attempt at one start position: the literal \<open>Chap_\<close>, then
  the longest run of digits (which must not be empty; giving digits back never helps, since
  what follows is optional), then the optional group, which is taken when a \<open>-\<close> and an
  upper-case letter follow. The result holds the two capture groups.
\<close>

definition order_match_here :: "jsstring \<Rightarrow> (jsstring \<times> nat option) option" where
  "order_match_here s =
     (if prefix (str ''Chap_'') s then
        (let r = drop 5 s; ds = takeWhile is_digit r; t = dropWhile is_digit r in
         if ds = [] then None
         else Some (ds, case t of
                          c # l # _ \<Rightarrow> if c = 45 \<and> is_upper l then Some l else None
                        | _ \<Rightarrow> None))
      else None)"

fun order_match :: "jsstring \<Rightarrow> (jsstring \<times> nat option) option" where
  "order_match [] = None"
| "order_match (c # cs) =
     (case order_match_here (c # cs) of
        Some m \<Rightarrow> Some m
      | None \<Rightarrow> order_match cs)"

text \<open>
  \<open>getChapterOrder\<close>: 999 without a match, else \<open>mainNum * 10 + subNum\<close>, where \<open>subNum\<close> is
  \<open>charCodeAt(0) - 64\<close> of the letter, or 0. The letter is one of A to Z, so \<open>subNum\<close> is at
  most 26, and the product and the sum are those of the code where
  \<open>mainNum * 10 + 26 < 2^53\<close>.
\<close>

definition getChapterOrder :: "jsstring \<Rightarrow> nat" where
  "getChapterOrder filename =
     (case order_match filename of
        None \<Rightarrow> 999
      | Some (ds, sub) \<Rightarrow>
          (let mainNum = parseInt10 ds;
               subNum = (case sub of Some l \<Rightarrow> l - 64 | None \<Rightarrow> 0)
           in mainNum * 10 + subNum))"

subsection \<open>The filename convention, in the words of the specification\<close>

text \<open>
  A conforming filename is \<open>Chap_<digits>[-<UppercaseLetter>]_...\<close>. \<open>chap_name\<close> builds
  one from its parts; \<open>alpha_pos\<close> is the position of a letter in the alphabet, counted
  from 1. \<open>mentions_chapter\<close> says that \<open>Chap_\<close> directly followed by a digit occurs
  somewhere in a name.
\<close>

definition alphabet :: jsstring where
  "alphabet = str ''ABCDEFGHIJKLMNOPQRSTUVWXYZ''"

definition alpha_pos :: "nat \<Rightarrow> nat" where
  "alpha_pos l = length (takeWhile (\<lambda>c. c \<noteq> l) alphabet) + 1"

definition chap_name :: "jsstring \<Rightarrow> nat option \<Rightarrow> jsstring \<Rightarrow> jsstring" where
  "chap_name ds sub rest =
     str ''Chap_'' @ ds @ (case sub of None \<Rightarrow> [] | Some l \<Rightarrow> [45, l]) @ 95 # rest"

definition conforming :: "jsstring \<Rightarrow> bool" where
  "conforming f \<longleftrightarrow>
     (\<exists>ds sub rest. f = chap_name ds sub rest \<and> ds \<noteq> [] \<and> list_all is_digit ds \<and>
        (case sub of None \<Rightarrow> True | Some l \<Rightarrow> is_upper l))"

definition mentions_chapter :: "jsstring \<Rightarrow> bool" where
  "mentions_chapter f \<longleftrightarrow> (\<exists>pre d post. f = pre @ str ''Chap_'' @ d # post \<and> is_digit d)"

section \<open>sync-chapters.js: mirroring the assets\<close>

text \<open>
  The source tree is what \<open>readdir(src, { withFileTypes: true })\<close> returns, level by
  level: an entry is a directory (\<open>entry.isDirectory()\<close>) with its own entries, or
  anything else, which the code treats as a file. A path is the list of its components,
  so that \<open>join(dir, entry.name)\<close> appends one component. The effect of \<open>copyDir\<close> on the
  file system is the list of the operations it performs, in order.
\<close>

type_synonym path = "jsstring list"

datatype dirent = File jsstring | Directory jsstring "dirent list"

datatype fs_op = Mkdir path | CopyFile path path

text \<open>
  \<open>toLowerCase\<close> on the letters A to Z. The full Unicode mapping sends no character
  outside ASCII to a sequence ending in one of the ASCII letters of the extensions below,
  so for the suffix test of \<open>is_image_name\<close> the two agree.
\<close>

definition toLowerCase :: "jsstring \<Rightarrow> jsstring" where
  "toLowerCase s = map (\<lambda>c. if 65 \<le> c \<and> c \<le> 90 then c + 32 else c) s"

definition endsWith :: "jsstring \<Rightarrow> jsstring \<Rightarrow> bool" where
  "endsWith s t \<longleftrightarrow> suffix t s"

definition imageExts :: "jsstring list" where
  "imageExts = [str ''.jpg'', str ''.jpeg'', str ''.png'', str ''.gif'', str ''.webp'', str ''.svg'']"

text \<open>\<open>imageExts.some(ext => entry.name.toLowerCase().endsWith(ext))\<close>\<close>

definition is_image_name :: "jsstring \<Rightarrow> bool" where
  "is_image_name name \<longleftrightarrow> list_ex (\<lambda>ext. endsWith (toLowerCase name) ext) imageExts"

text \<open>
  \<open>copyEntries\<close> is the \<open>for\<close> loop of \<open>copyDir\<close> over the entries of one directory and
  \<open>copyEntry\<close> its body; the recursive call of \<open>copyDir\<close> on a subdirectory starts, like
  \<open>copyDir\<close> itself, by creating the destination directory. The second component is
  \<open>count\<close>.
\<close>

fun copyEntry :: "path \<Rightarrow> path \<Rightarrow> dirent \<Rightarrow> fs_op list \<times> nat"
  and copyEntries :: "path \<Rightarrow> path \<Rightarrow> dirent list \<Rightarrow> fs_op list \<times> nat" where
  "copyEntry src dest (Directory name sub) =
     (let (ops, n) = copyEntries (src @ [name]) (dest @ [name]) sub
      in (Mkdir (dest @ [name]) # ops, n))"
| "copyEntry src dest (File name) =
     (if is_image_name name then ([CopyFile (src @ [name]) (dest @ [name])], 1) else ([], 0))"
| "copyEntries src dest [] = ([], 0)"
| "copyEntries src dest (e # es) =
     (let (ops1, n1) = copyEntry src dest e;
          (ops2, n2) = copyEntries src dest es
      in (ops1 @ ops2, n1 + n2))"

definition copyDir :: "path \<Rightarrow> path \<Rightarrow> dirent list \<Rightarrow> fs_op list \<times> nat" where
  "copyDir src dest entries =
     (let (ops, n) = copyEntries src dest entries in (Mkdir dest # ops, n))"

subsection \<open>The asset filter, in the words of the specification\<close>

text \<open>
  \<open>files_in\<close> lists every file of a tree by its path relative to the root, in the order
  of the walk. A name has an allowed extension when, lower-cased, it ends with a dot and
  one of the six extensions. \<open>copies\<close> keeps the copy operations of a list of operations,
  as pairs of source and destination, and \<open>mirrored\<close> is what the specification asks for:
  each file with an allowed extension, copied from the source root to the same relative
  path under the destination root.
\<close>

fun files_of :: "path \<Rightarrow> dirent \<Rightarrow> path list"
  and files_in :: "path \<Rightarrow> dirent list \<Rightarrow> path list" where
  "files_of rel (File name) = [rel @ [name]]"
| "files_of rel (Directory name sub) = files_in (rel @ [name]) sub"
| "files_in rel [] = []"
| "files_in rel (e # es) = files_of rel e @ files_in rel es"

definition allowed_extensions :: "jsstring list" where
  "allowed_extensions = [str ''jpg'', str ''jpeg'', str ''png'', str ''gif'', str ''webp'', str ''svg'']"

definition has_allowed_extension :: "jsstring \<Rightarrow> bool" where
  "has_allowed_extension name \<longleftrightarrow>
     (\<exists>stem ext. ext \<in> set allowed_extensions \<and> toLowerCase name = stem @ 46 # ext)"

definition copies :: "fs_op list \<Rightarrow> (path \<times> path) list" where
  "copies ops = concat (map (\<lambda>op. case op of CopyFile a b \<Rightarrow> [(a, b)] | Mkdir _ \<Rightarrow> []) ops)"

definition mirrored :: "path \<Rightarrow> path \<Rightarrow> path list \<Rightarrow> (path \<times> path) list" where
  "mirrored src dest ps =
     map (\<lambda>p. (src @ p, dest @ p)) (filter (\<lambda>p. has_allowed_extension (last p)) ps)"

section \<open>publish-to-wp.js: the remote interface\<close>

text \<open>
  The process environment: the four variables read at start-up (\<open>WP_URL\<close> and
  \<open>NOVEL_SITE_URL\<close> after their defaults; \<open>WP_USER\<close> and \<open>WP_APP_PASSWORD\<close> may be
  unset), and the two platform functions the request builders call, which are not
  code of the scripts: \<open>encodeURIComponent\<close> and the base-64 encoding of
  \<open>Buffer.from(...).toString('base64')\<close>.
\<close>

record runtime =
  WP_URL :: jsstring
  WP_USER :: "jsstring option"
  WP_APP_PASSWORD :: "jsstring option"
  NOVEL_SITE_URL :: jsstring
  encodeURIComponent :: "jsstring \<Rightarrow> jsstring"
  base64 :: "jsstring \<Rightarrow> jsstring"

datatype error = Error jsstring





text \<open>
  What the scripts read of a response: \<open>response.ok\<close>, \<open>response.status\<close>,
  \<open>response.text()\<close> and \<open>response.json()\<close>, which is a list of posts for a query, one
  post for a write, and \<open>None\<close> when the body is not JSON and \<open>json()\<close> throws. \<open>fetch\<close> is
  the remote side: it answers a request with a response, or rejects (\<open>Inl\<close>).
\<close>

record wp_post =
  post_id :: nat
  post_link :: jsstring

datatype json_value = JPosts "wp_post list" | JPost wp_post



text \<open>A number in a template literal: its decimal digits.\<close>

fun show_nat :: "nat \<Rightarrow> jsstring" where
  "show_nat n = (if n < 10 then [48 + n] else show_nat (n div 10) @ [48 + n mod 10])"

declare show_nat.simps [simp del]








section \<open>publish-to-wp.js: the batch\<close>

text \<open>
  What the \<open>try\<close> block of \<open>main\<close> does for one file: it leaves the iteration by
  \<open>continue\<close> for an unknown novel, runs to its end and reports the created or updated
  post, or throws. The block reads files and talks to the remote site, so its outcome for
  a file is given by the world, as a function of the file.
\<close>

datatype outcome = UnknownNovel | Posted bool jsstring jsstring

datatype event =
    NoFiles
  | MissingCredentials
  | Publishing nat
  | Skipping jsstring
  | Succeeded jsstring bool jsstring jsstring
  | Failed jsstring jsstring
  | AllDone

definition truthy :: "jsstring option \<Rightarrow> bool" where
  "truthy v \<longleftrightarrow> (case v of Some s \<Rightarrow> s \<noteq> [] | None \<Rightarrow> False)"

text \<open>The \<open>for\<close> loop with its \<open>try\<close>/\<open>catch\<close>.\<close>

fun publish_loop :: "(jsstring \<Rightarrow> error + outcome) \<Rightarrow> jsstring list \<Rightarrow> event list" where
  "publish_loop try_block [] = []"
| "publish_loop try_block (file # files) =
     (case try_block file of
        Inr UnknownNovel \<Rightarrow> Skipping file
      | Inr (Posted isUpdate chapterTitle link) \<Rightarrow> Succeeded file isUpdate chapterTitle link
      | Inl (Error message) \<Rightarrow> Failed file message)
     # publish_loop try_block files"

text \<open>
  \<open>main\<close> returns what it has printed and the exit code of the process: 1 after
  \<open>process.exit(1)\<close>, 0 when \<open>main\<close> returns.
\<close>

definition main :: "runtime \<Rightarrow> jsstring list \<Rightarrow> (jsstring \<Rightarrow> error + outcome) \<Rightarrow> event list \<times> nat" where
  "main rt argv try_block =
     (let files = filter (\<lambda>f. endsWith f (str ''.md'')) argv in
      if files = [] then ([NoFiles], 0)
      else if \<not> truthy (WP_USER rt) \<or> \<not> truthy (WP_APP_PASSWORD rt) then ([MissingCredentials], 1)
      else (Publishing (length files) # publish_loop try_block files @ [AllDone], 0))"

subsection \<open>The batch, in the words of the specification\<close>

text \<open>
  \<open>md_files\<close> are the arguments that name markdown files; the credentials are missing
  when one of the two variables is unset or empty; \<open>report\<close> is the line printed for one
  file, from what its processing did. \<open>demo_runtime\<close> and \<open>answer\<close> are a concrete
  environment and a remote side that answers every request with the same JSON value.
\<close>

definition demo_runtime :: runtime where
  "demo_runtime = \<lparr>WP_URL = str ''https://blog.cqi365.net'', WP_USER = Some (str ''u''),
     WP_APP_PASSWORD = Some (str ''p''), NOVEL_SITE_URL = str ''https://novels.cqi365.net'',
     encodeURIComponent = (\<lambda>s. s), base64 = (\<lambda>s. s)\<rparr>"


definition report :: "(jsstring \<Rightarrow> error + outcome) \<Rightarrow> jsstring \<Rightarrow> event" where
  "report try_block file =
     (case try_block file of
        Inl (Error message) \<Rightarrow> Failed file message
      | Inr UnknownNovel \<Rightarrow> Skipping file
      | Inr (Posted isUpdate chapterTitle link) \<Rightarrow> Succeeded file isUpdate chapterTitle link)"

definition md_files :: "jsstring list \<Rightarrow> jsstring list" where
  "md_files argv = filter (\<lambda>f. suffix (str ''.md'') f) argv"

definition credentials_missing :: "runtime \<Rightarrow> bool" where
  "credentials_missing rt \<longleftrightarrow>
     WP_USER rt = None \<or> WP_USER rt = Some [] \<or> WP_APP_PASSWORD rt = None \<or> WP_APP_PASSWORD rt = Some []"

section \<open>Character classes and string helpers of the scripts\<close>

text \<open>
  \<open>.\<close> matches every code unit but the four line terminators; \<open>\s\<close> and \<open>trim\<close> take
  the white space and the line terminators of ECMAScript.
\<close>

definition isLineTerminator :: "nat \<Rightarrow> bool" where
  "isLineTerminator c \<longleftrightarrow> c = 10 \<or> c = 13 \<or> c = 8232 \<or> c = 8233"

definition isWhiteSpace :: "nat \<Rightarrow> bool" where
  "isWhiteSpace c \<longleftrightarrow>
     c = 9 \<or> c = 10 \<or> c = 11 \<or> c = 12 \<or> c = 13 \<or> c = 32 \<or> c = 160 \<or> c = 5760 \<or>
     (8192 \<le> c \<and> c \<le> 8202) \<or> c = 8232 \<or> c = 8233 \<or> c = 8239 \<or> c = 8287 \<or>
     c = 12288 \<or> c = 65279"

definition trim :: "jsstring \<Rightarrow> jsstring" where
  "trim s = rev (dropWhile isWhiteSpace (rev (dropWhile isWhiteSpace s)))"

section \<open>publish-to-wp.js: the excerpt\<close>

text \<open>
  \<open>/!\[.*?\]\(.*?\)/g\<close>, one attempt at a start position: after \<open>![\<close> the first lazy
  \<open>.*?\<close> stops at the first \<open>](\<close> it reaches without crossing a line terminator, and the
  second at the first \<open>)\<close>. When no \<open>)\<close> follows on the line, a later \<open>](\<close> on the same
  line has none either, so backtracking finds nothing more. The result is the rest of
  the string after the match.
\<close>

fun after_bracket_paren :: "jsstring \<Rightarrow> jsstring option" where
  "after_bracket_paren [] = None"
| "after_bracket_paren (c # cs) =
     (if prefix [93, 40] (c # cs) then Some (drop 1 cs)
      else if isLineTerminator c then None
      else after_bracket_paren cs)"

fun after_paren :: "jsstring \<Rightarrow> jsstring option" where
  "after_paren [] = None"
| "after_paren (c # cs) =
     (if c = 41 then Some cs
      else if isLineTerminator c then None
      else after_paren cs)"

definition match_image :: "jsstring \<Rightarrow> jsstring option" where
  "match_image s =
     (if prefix [33, 91] s then
        (case after_bracket_paren (drop 2 s) of
           None \<Rightarrow> None
         | Some r \<Rightarrow> after_paren r)
      else None)"

lemma after_bracket_paren_length: "after_bracket_paren s = Some r \<Longrightarrow> length r < length s"
  by (induction s) (auto split: if_splits)

lemma after_paren_length: "after_paren s = Some r \<Longrightarrow> length r < length s"
  by (induction s) (auto split: if_splits)

lemma match_image_length: "match_image s = Some r \<Longrightarrow> length r < length s"
  by (fastforce simp: match_image_def split: if_splits option.splits
      dest: after_bracket_paren_length after_paren_length)

text \<open>\<open>.replace(/!\[.*?\]\(.*?\)/g, '')\<close>\<close>

function remove_images :: "jsstring \<Rightarrow> jsstring" where
  "remove_images [] = []"
| "remove_images (c # cs) =
     (case match_image (c # cs) of
        Some rest \<Rightarrow> remove_images rest
      | None \<Rightarrow> c # remove_images cs)"
  by pat_completeness auto
termination
  by (relation "measure length") (auto dest: match_image_length)

text \<open>\<open>.replace(/[#*_`]/g, '')\<close>\<close>

definition remove_markers :: "jsstring \<Rightarrow> jsstring" where
  "remove_markers s = filter (\<lambda>c. c \<noteq> 35 \<and> c \<noteq> 42 \<and> c \<noteq> 95 \<and> c \<noteq> 96) s"

text \<open>\<open>.replace(/\n+/g, ' ')\<close>: every maximal run of newlines becomes one space.\<close>

function newlines_to_space :: "jsstring \<Rightarrow> jsstring" where
  "newlines_to_space [] = []"
| "newlines_to_space (c # cs) =
     (if c = 10 then 32 # newlines_to_space (dropWhile (\<lambda>x. x = 10) cs)
      else c # newlines_to_space cs)"
  by pat_completeness auto
termination
  by (relation "measure length") (auto simp: less_Suc_eq_le length_dropWhile_le)

definition plainText :: "jsstring \<Rightarrow> jsstring" where
  "plainText content = trim (newlines_to_space (remove_markers (remove_images content)))"

text \<open>
  \<open>.replace(/\s+\S*$/, '')\<close>, without the \<open>g\<close> flag: the first match from the left is
  removed. A match starts at a white-space character such that, after the run of white
  space it starts, only characters that are not white space follow up to the end; it
  reaches the end of the string.
\<close>

fun remove_last_word :: "jsstring \<Rightarrow> jsstring" where
  "remove_last_word [] = []"
| "remove_last_word (c # cs) =
     (if isWhiteSpace c \<and> list_all (\<lambda>x. \<not> isWhiteSpace x) (dropWhile isWhiteSpace cs) then []
      else c # remove_last_word cs)"

definition createExcerpt :: "jsstring \<Rightarrow> nat \<Rightarrow> jsstring" where
  "createExcerpt content maxLength =
     (if length (plainText content) \<le> maxLength then plainText content
      else remove_last_word (take maxLength (plainText content)) @ str ''...'')"

subsection \<open>The cut of the excerpt, in the words of the specification\<close>

text \<open>
  \<open>cut_before_last_space xs kept\<close>: \<open>kept\<close> is \<open>xs\<close> cut at the start of its last run of
  white space, so that \<open>kept\<close> ends with a whole word; when \<open>xs\<close> has no white space at
  all there is no such place, and \<open>kept\<close> is all of \<open>xs\<close>.
\<close>

definition cut_before_last_space :: "jsstring \<Rightarrow> jsstring \<Rightarrow> bool" where
  "cut_before_last_space xs kept \<longleftrightarrow>
     (if list_ex isWhiteSpace xs then
        (\<exists>gap word. xs = kept @ gap @ word \<and> gap \<noteq> [] \<and> list_all isWhiteSpace gap \<and>
           list_all (\<lambda>x. \<not> isWhiteSpace x) word \<and> (kept = [] \<or> \<not> isWhiteSpace (last kept)))
      else kept = xs)"

section \<open>sync-chapters.js: front matter\<close>

text \<open>\<open>Array.prototype.join\<close> and \<open>String.prototype.split\<close> with a separator of one character.\<close>

fun join :: "jsstring \<Rightarrow> jsstring list \<Rightarrow> jsstring" where
  "join sep [] = []"
| "join sep [x] = x"
| "join sep (x # y # ys) = x @ sep @ join sep (y # ys)"

fun split_on :: "nat \<Rightarrow> jsstring \<Rightarrow> jsstring list" where
  "split_on sep [] = [[]]"
| "split_on sep (c # cs) =
     (if c = sep then [] # split_on sep cs
      else (case split_on sep cs of
              l # ls \<Rightarrow> (c # l) # ls
            | [] \<Rightarrow> [[c]]))"

text \<open>
  \<open>content.match(/^---\n([\s\S]*?)\n---/)\<close>: the content starts with \<open>---\<close> and a newline,
  and the lazy group ends before the first newline followed by \<open>---\<close>. \<open>before_fence\<close>
  finds that place and returns the group and the rest of the content after the match.
\<close>

fun before_fence :: "jsstring \<Rightarrow> (jsstring \<times> jsstring) option" where
  "before_fence [] = None"
| "before_fence (c # cs) =
     (if prefix [10, 45, 45, 45] (c # cs) then Some ([], drop 3 cs)
      else map_option (\<lambda>(m, r). (c # m, r)) (before_fence cs))"

definition parseFrontmatter :: "jsstring \<Rightarrow> jsstring option \<times> jsstring" where
  "parseFrontmatter content =
     (if prefix [45, 45, 45, 10] content then
        (case before_fence (drop 4 content) of
           Some (m, rest) \<Rightarrow> (Some m, trim rest)
         | None \<Rightarrow> (None, content))
      else (None, content))"

text \<open>\<open>.replace(/^["']|["']$/g, '')\<close>: a quote at the start and a quote at the end are removed.\<close>

definition strip_quotes :: "jsstring \<Rightarrow> jsstring" where
  "strip_quotes v =
     (let v1 = (case v of c # cs \<Rightarrow> if c = 34 \<or> c = 39 then cs else v | [] \<Rightarrow> [])
      in if v1 \<noteq> [] \<and> (last v1 = 34 \<or> last v1 = 39) then butlast v1 else v1)"

text \<open>
  One line of \<open>parseYamlFrontmatter\<close>: \<open>colonIdx\<close> is the length of the text before the
  first colon, and the line counts when there is a colon and \<open>colonIdx > 0\<close>.
\<close>

definition parse_line :: "jsstring \<Rightarrow> (jsstring \<times> jsstring) option" where
  "parse_line line =
     (let k = takeWhile (\<lambda>c. c \<noteq> 58) line; r = dropWhile (\<lambda>c. c \<noteq> 58) line
      in if r \<noteq> [] \<and> k \<noteq> [] then Some (trim k, strip_quotes (trim (tl r))) else None)"

text \<open>
  The object built by \<open>parseYamlFrontmatter\<close> is read only at the keys \<open>title\<close>, \<open>cover\<close>,
  \<open>cover_url\<close> and \<open>cover_media_id\<close>, none of which \<open>Object.prototype\<close> has, so it is a map
  from keys to values. The argument is \<open>null\<close> (\<open>None\<close>) or a string, and both \<open>null\<close> and
  the empty string are falsy.
\<close>

definition parseYamlFrontmatter :: "jsstring option \<Rightarrow> (jsstring \<rightharpoonup> jsstring)" where
  "parseYamlFrontmatter frontmatterStr =
     (case frontmatterStr of
        None \<Rightarrow> Map.empty
      | Some s \<Rightarrow>
          if s = [] then Map.empty
          else fold (\<lambda>line obj. case parse_line line of
                                  Some (k, v) \<Rightarrow> obj(k \<mapsto> v)
                                | None \<Rightarrow> obj)
                 (split_on 10 s) Map.empty)"

text \<open>
  \<open>filename.match(/Chap_\d+(?:-[A-Z])?_[^_]+_(.+)\.md$/)\<close>, one attempt at a start
  position. The digits, the optional letter group and the run of characters other than
  \<open>_\<close> are each taken as long as possible and nothing shorter can match, since the next
  character must be \<open>_\<close>. What follows the second \<open>_\<close> must be at least one character
  that is not a line terminator and then \<open>.md\<close> at the very end of the name; the group is
  that text without \<open>.md\<close>.
\<close>

definition title_match_here :: "jsstring \<Rightarrow> jsstring option" where
  "title_match_here s =
     (if prefix (str ''Chap_'') s then
        (let r = drop 5 s; ds = takeWhile is_digit r; t = dropWhile is_digit r;
             t' = (case t of c # l # u \<Rightarrow> if c = 45 \<and> is_upper l then u else t | _ \<Rightarrow> t)
         in if ds = [] then None
            else (case t' of
                    [] \<Rightarrow> None
                  | c # u \<Rightarrow>
                      if c \<noteq> 95 then None
                      else (let a = takeWhile (\<lambda>x. x \<noteq> 95) u; v = dropWhile (\<lambda>x. x \<noteq> 95) u
                            in if a = [] \<or> v = [] then None
                               else (let w = tl v; g = take (length w - 3) w
                                     in if suffix (str ''.md'') w \<and> g \<noteq> [] \<and>
                                           list_all (\<lambda>x. \<not> isLineTerminator x) g
                                        then Some g else None))))
      else None)"

fun title_match :: "jsstring \<Rightarrow> jsstring option" where
  "title_match [] = None"
| "title_match (c # cs) =
     (case title_match_here (c # cs) of
        Some g \<Rightarrow> Some g
      | None \<Rightarrow> title_match cs)"

text \<open>\<open>s.replace(pat, '')\<close> with a string pattern: the first occurrence is removed.\<close>

fun remove_first :: "jsstring \<Rightarrow> jsstring \<Rightarrow> jsstring" where
  "remove_first pat [] = []"
| "remove_first pat (c # cs) =
     (if prefix pat (c # cs) then drop (length pat) (c # cs) else c # remove_first pat cs)"

definition defaultTitle :: "jsstring \<Rightarrow> jsstring" where
  "defaultTitle filename =
     (case title_match filename of
        Some g \<Rightarrow> map (\<lambda>c. if c = 95 then 32 else c) g
      | None \<Rightarrow> remove_first (str ''.md'') filename)"

text \<open>
  The object \<open>fields\<close> of \<open>generateFrontmatter\<close>, with its entries in insertion order. A
  value is a string or a number; \<open>existing.title || defaultTitle\<close> and the three
  \<open>if (existing.cover...)\<close> take a key that is absent or empty as missing.
\<close>

datatype field_value = FString jsstring | FNumber nat

definition preserved :: "(jsstring \<rightharpoonup> jsstring) \<Rightarrow> jsstring \<Rightarrow> (jsstring \<times> field_value) list" where
  "preserved existing k =
     (case existing k of
        Some v \<Rightarrow> if v \<noteq> [] then [(k, FString v)] else []
      | None \<Rightarrow> [])"

definition frontmatter_fields :: "jsstring \<Rightarrow> (jsstring \<rightharpoonup> jsstring) \<Rightarrow> (jsstring \<times> field_value) list" where
  "frontmatter_fields filename existing =
     [(str ''title'',
       FString (case existing (str ''title'') of
                  Some t \<Rightarrow> if t \<noteq> [] then t else defaultTitle filename
                | None \<Rightarrow> defaultTitle filename)),
      (str ''order'', FNumber (getChapterOrder filename))]
     @ preserved existing (str ''cover'')
     @ preserved existing (str ''cover_url'')
     @ preserved existing (str ''cover_media_id'')"

definition render_field :: "jsstring \<times> field_value \<Rightarrow> jsstring" where
  "render_field kv =
     (case kv of
        (k, FNumber n) \<Rightarrow> k @ [58, 32] @ show_nat n
      | (k, FString s) \<Rightarrow> k @ [58, 32, 34] @ s @ [34])"

definition generateFrontmatter :: "jsstring \<Rightarrow> jsstring option \<Rightarrow> jsstring" where
  "generateFrontmatter filename existingFrontmatter =
     (let existing = parseYamlFrontmatter existingFrontmatter;
          lines = map render_field (frontmatter_fields filename existing)
      in str ''---'' @ [10] @ join [10] lines @ [10] @ str ''---'')"

text \<open>
  A directory of chapter files is a map from file names to contents. \<open>syncChapter\<close> is
  the body of the loop of \<open>syncNovel\<close> for one file of the project with its content, on the
  content directory; \<open>syncNovel\<close> takes what \<open>readdir\<close> lists of the project directory with
  the content of each file, or \<open>None\<close> when the directory does not exist, and returns the
  content directory and the exit code.
\<close>

type_synonym directory = "jsstring \<rightharpoonup> jsstring"

definition newContent :: "jsstring \<Rightarrow> jsstring \<Rightarrow> jsstring" where
  "newContent file content =
     (let (frontmatter, body) = parseFrontmatter content;
          newFrontmatter = generateFrontmatter file frontmatter
      in newFrontmatter @ [10, 10] @ body)"

definition syncChapter :: "jsstring \<times> jsstring \<Rightarrow> directory \<Rightarrow> directory" where
  "syncChapter fc dest = (case fc of (file, content) \<Rightarrow> dest(file \<mapsto> newContent file content))"

definition syncNovel :: "(jsstring \<times> jsstring) list option \<Rightarrow> directory \<Rightarrow> directory \<times> nat" where
  "syncNovel project dest =
     (case project of
        None \<Rightarrow> (dest, 1)
      | Some files \<Rightarrow>
          (fold syncChapter (filter (\<lambda>fc. endsWith (fst fc) (str ''.md'')) files) dest, 0))"

subsection \<open>Front matter, in the words of the specification\<close>

text \<open>
  \<open>front_matter_of\<close> is the front matter of a chapter file as a map, read the way the
  synchronizer reads it; \<open>frontmatter_lines\<close> are the lines between the two \<open>---\<close> of the
  front matter generated for a file from its source content; \<open>cover_keys\<close> are the three
  preserved fields. The chapters below are the examples of the properties: a file whose
  front matter has a cover, a file without front matter, the file generated from the
  latter under the name \<open>Chap_1_A_T.md\<close>, and a content directory that holds the chapter
  with the cover from an earlier run.
\<close>

definition front_matter_of :: "jsstring \<Rightarrow> (jsstring \<rightharpoonup> jsstring)" where
  "front_matter_of content = parseYamlFrontmatter (fst (parseFrontmatter content))"

definition cover_keys :: "jsstring list" where
  "cover_keys = [str ''cover'', str ''cover_url'', str ''cover_media_id'']"

definition frontmatter_lines :: "jsstring \<Rightarrow> jsstring \<Rightarrow> jsstring list" where
  "frontmatter_lines file content = map render_field (frontmatter_fields file (front_matter_of content))"

definition chapter_with_cover :: jsstring where
  "chapter_with_cover =
     join [10] [str ''---'', str ''cover: '' @ [34] @ str ''x.jpg'' @ [34], str ''---'', [], str ''Body'']"

definition chapter_without_front_matter :: jsstring where
  "chapter_without_front_matter = str ''Body''"

definition regenerated_chapter :: jsstring where
  "regenerated_chapter =
     join [10] [str ''---'', str ''title: '' @ [34] @ str ''T'' @ [34], str ''order: 10'', str ''---'',
       [], str ''Body'']"

definition stale_dest :: directory where
  "stale_dest = [str ''Chap_1_A_T.md'' \<mapsto> chapter_with_cover]"

section \<open>clean-chapters.js\<close>

text \<open>
  \<open>/<metadata>[\s\S]*?<\/metadata>\s*/gi\<close>. With the \<open>i\<close> flag and no \<open>u\<close> flag a
  character of the pattern matches a character of the input when both have the same
  upper-case form, and a character outside ASCII never matches an ASCII one; for the
  ASCII pattern here that is equality after \<open>ascii_upper\<close>.
\<close>

definition ascii_upper :: "nat \<Rightarrow> nat" where
  "ascii_upper c = (if 97 \<le> c \<and> c \<le> 122 then c - 32 else c)"

fun ci_prefix :: "jsstring \<Rightarrow> jsstring \<Rightarrow> bool" where
  "ci_prefix [] s = True"
| "ci_prefix (p # ps) [] = False"
| "ci_prefix (p # ps) (c # cs) = (ascii_upper p = ascii_upper c \<and> ci_prefix ps cs)"

text \<open>
  The lazy \<open>[\s\S]*?\<close> ends at the first closing tag; \<open>after_close_tag\<close> returns what
  follows that tag. One attempt at a start position matches the opening tag, everything
  up to and including the first closing tag after it, and all white space that follows;
  \<open>match_metadata\<close> returns the rest of the string after the match.
\<close>

fun after_close_tag :: "jsstring \<Rightarrow> jsstring option" where
  "after_close_tag [] = None"
| "after_close_tag (c # cs) =
     (if ci_prefix (str ''</metadata>'') (c # cs) then Some (drop 10 cs)
      else after_close_tag cs)"

definition match_metadata :: "jsstring \<Rightarrow> jsstring option" where
  "match_metadata s =
     (if ci_prefix (str ''<metadata>'') s then
        (case after_close_tag (drop 10 s) of
           None \<Rightarrow> None
         | Some r \<Rightarrow> Some (dropWhile isWhiteSpace r))
      else None)"

lemma after_close_tag_length: "after_close_tag s = Some r \<Longrightarrow> length r < length s"
  by (induction s) (auto split: if_splits)

lemma match_metadata_length: "match_metadata s = Some r \<Longrightarrow> length r < length s"
proof -
  assume "match_metadata s = Some r"
  then obtain t where t: "after_close_tag (drop 10 s) = Some t" "r = dropWhile isWhiteSpace t"
    by (auto simp: match_metadata_def split: if_splits option.splits)
  have "length r \<le> length t" using t(2) by (simp add: length_dropWhile_le)
  also have "\<dots> < length (drop 10 s)" using t(1) by (rule after_close_tag_length)
  finally show ?thesis by simp
qed

function remove_metadata :: "jsstring \<Rightarrow> jsstring" where
  "remove_metadata [] = []"
| "remove_metadata (c # cs) =
     (case match_metadata (c # cs) of
        Some rest \<Rightarrow> remove_metadata rest
      | None \<Rightarrow> c # remove_metadata cs)"
  by pat_completeness auto
termination
  by (relation "measure length") (auto dest: match_metadata_length)

text \<open>
  The five expressions \<open>/^- \*\*<label>\*\*:.*$/gm\<close>, where the colon is the full-width
  colon U+FF1A. With the \<open>m\<close> flag \<open>^\<close> matches at the start of the input and after a line
  terminator, and \<open>.*$\<close> runs to the next line terminator or to the end. The flag of
  \<open>remove_labeled\<close> says whether the position is the start of a line.
\<close>

definition bullet_prefix :: "jsstring \<Rightarrow> jsstring" where
  "bullet_prefix label = [45, 32, 42, 42] @ label @ [42, 42, 65306]"

function remove_labeled :: "jsstring \<Rightarrow> bool \<Rightarrow> jsstring \<Rightarrow> jsstring" where
  "remove_labeled label bol [] = []"
| "remove_labeled label bol (c # cs) =
     (if bol \<and> prefix (bullet_prefix label) (c # cs) then
        remove_labeled label False
          (dropWhile (\<lambda>x. \<not> isLineTerminator x) (drop (length (bullet_prefix label)) (c # cs)))
      else c # remove_labeled label (isLineTerminator c) cs)"
  by pat_completeness auto
termination
  by (relation "measure (\<lambda>(label, bol, s). length s)")
    (auto simp: less_Suc_eq_le bullet_prefix_def intro: le_trans [OF length_dropWhile_le])

text \<open>The labels of the five expressions, in the order of the script.\<close>

definition label_word_count :: jsstring where
  "label_word_count = [23383, 25976, 30446, 27161]"

definition label_pov :: jsstring where
  "label_pov = str ''POV''"

definition label_timeline :: jsstring where
  "label_timeline = [26178, 38291, 36600]"

definition label_theme :: jsstring where
  "label_theme = [26680, 24515, 20027, 38988]"

definition label_scene :: jsstring where
  "label_scene = [22580, 26223]"

text \<open>\<open>.replace(/\n{4,}/g, '\n\n\n')\<close>: a run of four or more newlines becomes three.\<close>

function collapse_blank_lines :: "jsstring \<Rightarrow> jsstring" where
  "collapse_blank_lines [] = []"
| "collapse_blank_lines (c # cs) =
     (if prefix [10, 10, 10, 10] (c # cs) then
        [10, 10, 10] @ collapse_blank_lines (dropWhile (\<lambda>x. x = 10) cs)
      else c # collapse_blank_lines cs)"
  by pat_completeness auto
termination
  by (relation "measure length") (auto simp: less_Suc_eq_le length_dropWhile_le)

text \<open>
  \<open>.replace(/(---\n)\n+/g, '$1\n')\<close>: \<open>---\<close>, a newline and the run of newlines after it
  become \<open>---\<close> and two newlines.
\<close>

function blank_after_fence :: "jsstring \<Rightarrow> jsstring" where
  "blank_after_fence [] = []"
| "blank_after_fence (c # cs) =
     (if prefix [45, 45, 45, 10, 10] (c # cs) then
        [45, 45, 45, 10, 10] @ blank_after_fence (dropWhile (\<lambda>x. x = 10) (drop 4 cs))
      else c # blank_after_fence cs)"
  by pat_completeness auto
termination
  by (relation "measure length")
    (auto simp: less_Suc_eq_le intro: le_trans [OF length_dropWhile_le])

text \<open>
  The content \<open>cleanChapter\<close> computes from the content it has read, and \<open>cleanChapter\<close>
  itself on a directory of files: reading a file that does not exist throws, and the file
  is written only when its content has changed.
\<close>

definition clean :: "jsstring \<Rightarrow> jsstring" where
  "clean original =
     (let content = remove_metadata original;
          content = remove_labeled label_word_count True content;
          content = remove_labeled label_pov True content;
          content = remove_labeled label_timeline True content;
          content = remove_labeled label_theme True content;
          content = remove_labeled label_scene True content;
          content = collapse_blank_lines content;
          content = blank_after_fence content
      in content)"

definition cleanChapter :: "directory \<Rightarrow> jsstring \<Rightarrow> error + directory \<times> bool" where
  "cleanChapter files filePath =
     (case files filePath of
        None \<Rightarrow> Inl (Error (str ''ENOENT''))
      | Some original \<Rightarrow>
          (let content = clean original
           in if content \<noteq> original then Inr (files(filePath \<mapsto> content), True)
              else Inr (files, False)))"

subsection \<open>Notions for the properties of the cleaner\<close>

text \<open>
  \<open>labeled_free label bol s\<close>: no line of \<open>s\<close> starts with the bullet of the label, where
  \<open>bol\<close> says whether \<open>s\<close> itself starts a line. A label is plain when it holds no line
  terminator, as the five labels of the script are. \<open>remove_all_labeled\<close> is the five
  replacements of \<open>cleanChapter\<close> in their order. The two chapters are the examples of the
  properties: one in which a metadata block sits inside a split opening tag, and a draft
  with a metadata block, a labeled bullet and six newlines in a row.
\<close>

fun labeled_free :: "jsstring \<Rightarrow> bool \<Rightarrow> jsstring \<Rightarrow> bool" where
  "labeled_free label bol [] = True"
| "labeled_free label bol (c # cs) =
     (\<not> (bol \<and> prefix (bullet_prefix label) (c # cs)) \<and> labeled_free label (isLineTerminator c) cs)"

definition plain_label :: "jsstring \<Rightarrow> bool" where
  "plain_label label \<longleftrightarrow> list_all (\<lambda>x. \<not> isLineTerminator x) label"

definition remove_all_labeled :: "jsstring \<Rightarrow> jsstring" where
  "remove_all_labeled s =
     remove_labeled label_scene True
       (remove_labeled label_theme True
         (remove_labeled label_timeline True
           (remove_labeled label_pov True
             (remove_labeled label_word_count True s))))"

definition split_tag_chapter :: jsstring where
  "split_tag_chapter = str ''<meta<metadata>x</metadata>data>y</metadata>''"

definition draft_chapter :: jsstring where
  "draft_chapter =
     str ''<metadata>k</metadata>'' @ [10] @ bullet_prefix label_pov @ str ''me''
       @ [10, 10, 10, 10, 10, 10] @ str ''Text''"

section \<open>Properties of the order key\<close>

lemma str_Chap: "str ''Chap_'' = [67, 104, 97, 112, 95]"
  by (simp add: str_def)

lemma alpha_pos_upper: "is_upper l \<Longrightarrow> alpha_pos l = l - 64"
proof -
  have all: "\<forall>l \<in> {65..<91::nat}. alpha_pos l = l - 64"
    by code_simp
  assume "is_upper l"
  then have "l \<in> {65..<91}" by (simp add: is_upper_def)
  with all show ?thesis by blast
qed

lemma takeWhile_digits:
  "list_all is_digit ds \<Longrightarrow> \<not> is_digit c \<Longrightarrow> takeWhile is_digit (ds @ c # rest) = ds"
  by (induction ds) auto

lemma dropWhile_digits:
  "list_all is_digit ds \<Longrightarrow> \<not> is_digit c \<Longrightarrow> dropWhile is_digit (ds @ c # rest) = c # rest"
  by (induction ds) auto

lemma order_match_here_chap_name:
  assumes "ds \<noteq> []" "list_all is_digit ds" "case sub of None \<Rightarrow> True | Some l \<Rightarrow> is_upper l"
  shows "order_match_here (chap_name ds sub rest) = Some (ds, sub)"
proof (cases sub)
  case None
  have "\<not> is_digit 95" by (simp add: is_digit_def)
  with assms None show ?thesis
    by (simp add: order_match_here_def chap_name_def str_Chap takeWhile_digits dropWhile_digits
        split: list.splits)
next
  case (Some l)
  have "\<not> is_digit 45" by (simp add: is_digit_def)
  with assms Some show ?thesis
    by (simp add: order_match_here_def chap_name_def str_Chap takeWhile_digits dropWhile_digits)
qed

lemma order_match_chap_name:
  assumes "ds \<noteq> []" "list_all is_digit ds" "case sub of None \<Rightarrow> True | Some l \<Rightarrow> is_upper l"
  shows "order_match (chap_name ds sub rest) = Some (ds, sub)"
proof -
  obtain c cs where eq: "chap_name ds sub rest = c # cs"
    by (simp add: chap_name_def str_Chap)
  have "order_match_here (c # cs) = Some (ds, sub)"
    using order_match_here_chap_name [OF assms, of rest] eq by simp
  then show ?thesis by (simp add: eq)
qed

lemma order_match_here_Some:
  assumes a: "order_match_here s = Some m"
  shows "\<exists>d post. s = str ''Chap_'' @ d # post \<and> is_digit d"
proof -
  from a have "prefix (str ''Chap_'') s"
    by (simp add: order_match_here_def split: if_splits)
  then obtain r where s: "s = str ''Chap_'' @ r" by (auto simp: prefix_def)
  have "takeWhile is_digit r \<noteq> []"
    using a s by (auto simp: order_match_here_def Let_def str_Chap split: if_splits)
  then obtain d post where "r = d # post" "is_digit d"
    by (cases r) (auto split: if_splits)
  with s show ?thesis by blast
qed

lemma order_match_None: "\<not> mentions_chapter f \<Longrightarrow> order_match f = None"
proof (induction f)
  case Nil
  then show ?case by simp
next
  case (Cons c cs)
  have here: "order_match_here (c # cs) = None"
  proof (rule ccontr)
    assume "order_match_here (c # cs) \<noteq> None"
    then obtain m where "order_match_here (c # cs) = Some m" by auto
    from order_match_here_Some [OF this] have "mentions_chapter (c # cs)"
      unfolding mentions_chapter_def by (metis append_Nil)
    with Cons.prems show False by simp
  qed
  have "\<not> mentions_chapter cs"
  proof
    assume "mentions_chapter cs"
    then obtain pre d post where "cs = pre @ str ''Chap_'' @ d # post" "is_digit d"
      unfolding mentions_chapter_def by blast
    then have "c # cs = (c # pre) @ str ''Chap_'' @ d # post \<and> is_digit d" by simp
    then have "mentions_chapter (c # cs)" unfolding mentions_chapter_def by blast
    with Cons.prems show False by simp
  qed
  with Cons.IH here show ?case by simp
qed

lemma order_chap_name:
  assumes "ds \<noteq> []" "list_all is_digit ds" "case sub of None \<Rightarrow> True | Some l \<Rightarrow> is_upper l"
  shows "getChapterOrder (chap_name ds sub rest) =
         parseInt10 ds * 10 + (case sub of None \<Rightarrow> 0 | Some l \<Rightarrow> l - 64)"
  by (simp add: getChapterOrder_def order_match_chap_name [OF assms])

lemma not_mentions_notes: "\<not> mentions_chapter (str ''notes.md'')"
proof
  assume "mentions_chapter (str ''notes.md'')"
  then obtain pre d post where "str ''notes.md'' = pre @ str ''Chap_'' @ d # post"
    unfolding mentions_chapter_def by blast
  then have "67 \<in> set (str ''notes.md'')" by (simp add: str_Chap)
  then show False by (simp add: str_def)
qed

lemma not_conforming_Chap_5: "\<not> conforming (str ''Chap_5.md'')"
proof
  assume "conforming (str ''Chap_5.md'')"
  then obtain ds sub rest where "str ''Chap_5.md'' = chap_name ds sub rest"
    unfolding conforming_def by blast
  then have "95 \<in> set (drop 5 (str ''Chap_5.md''))"
    by (simp add: chap_name_def str_Chap)
  then show False by (simp add: str_def)
qed

lemma conforming_chap_name:
  "ds \<noteq> [] \<Longrightarrow> list_all is_digit ds \<Longrightarrow> (case sub of None \<Rightarrow> True | Some l \<Rightarrow> is_upper l)
   \<Longrightarrow> conforming (chap_name ds sub rest)"
  unfolding conforming_def by blast

lemma digits_1: "str ''1'' \<noteq> [] \<and> list_all is_digit (str ''1'') \<and> parseInt10 (str ''1'') = 1"
  by (simp add: str_def is_digit_def parseInt10_def)

lemma digits_2: "str ''2'' \<noteq> [] \<and> list_all is_digit (str ''2'') \<and> parseInt10 (str ''2'') = 2"
  by (simp add: str_def is_digit_def parseInt10_def)

lemma digits_12: "str ''12'' \<noteq> [] \<and> list_all is_digit (str ''12'') \<and> parseInt10 (str ''12'') = 12"
  by (simp add: str_def is_digit_def parseInt10_def)

text \<open>
  C2, as the code has it. For every conforming filename \<open>Chap_<N>[-<L>]_...\<close> whose number
  is in the range where the arithmetic of the code is exact, \<open>N * 10 + 26 < 2^53\<close>, the
  order is \<open>N * 10\<close> plus the alphabet position of \<open>L\<close> (A = 1), or plus 0 without a letter.
  (Beyond that range the code rounds: it computes in doubles.) The sentinel 999 is the
  order of every filename in which \<open>Chap_\<close> followed by a digit occurs nowhere; a name
  that merely mentions a chapter number, without following the whole convention, gets a
  computed order instead (see the counterexample).
\<close>

theorem order_key:
  "(ds \<noteq> [] \<and> list_all is_digit ds \<and> parseInt10 ds * 10 + 26 < 2 ^ 53 \<longrightarrow>
      getChapterOrder (chap_name ds None rest) = parseInt10 ds * 10) \<and>
   (ds \<noteq> [] \<and> list_all is_digit ds \<and> is_upper l \<and> parseInt10 ds * 10 + 26 < 2 ^ 53 \<longrightarrow>
      getChapterOrder (chap_name ds (Some l) rest) = parseInt10 ds * 10 + alpha_pos l) \<and>
   (\<not> mentions_chapter f \<longrightarrow> getChapterOrder f = 999)"
  by (simp add: getChapterOrder_def order_match_chap_name order_match_None alpha_pos_upper)

theorem order_key_witness:
  "getChapterOrder (str ''Chap_12_AB_Title.md'') = 120 \<and>
   getChapterOrder (str ''Chap_12-B_AB_Title.md'') = 122 \<and>
   getChapterOrder (str ''notes.md'') = 999"
proof -
  have u: "is_upper 66" by (simp add: is_upper_def)
  have a: "alpha_pos 66 = 2" by (simp add: alpha_pos_def alphabet_def str_def)
  have n1: "str ''Chap_12_AB_Title.md'' = chap_name (str ''12'') None (str ''AB_Title.md'')"
    by (simp add: chap_name_def str_def)
  have n2: "str ''Chap_12-B_AB_Title.md'' = chap_name (str ''12'') (Some 66) (str ''AB_Title.md'')"
    by (simp add: chap_name_def str_def)
  show ?thesis
    using order_key [of "str ''12''" "str ''AB_Title.md''" 66 "str ''notes.md''"]
      digits_12 u a not_mentions_notes
    unfolding n1 n2 by simp
qed

lemma not_conforming_Old_Chap_7: "\<not> conforming (str ''Old_Chap_7_AB_Title.md'')"
proof
  assume "conforming (str ''Old_Chap_7_AB_Title.md'')"
  then obtain ds sub rest where "str ''Old_Chap_7_AB_Title.md'' = chap_name ds sub rest"
    unfolding conforming_def by blast
  then have "hd (str ''Old_Chap_7_AB_Title.md'') = 67"
    by (simp add: chap_name_def str_Chap)
  then show False by (simp add: str_def)
qed

text \<open>
  C2 as stated fails: \<open>Chap_5.md\<close> does not conform (no \<open>_\<close> follows the number) and
  \<open>Old_Chap_7_AB_Title.md\<close> does not conform (it does not start with \<open>Chap_\<close>), yet the
  unanchored expression matches both, and their orders are 50 and 70, not the sentinel
  999.
\<close>

theorem order_sentinel_counterexample:
  "\<not> conforming (str ''Chap_5.md'') \<and> getChapterOrder (str ''Chap_5.md'') = 50 \<and>
   \<not> conforming (str ''Old_Chap_7_AB_Title.md'') \<and>
   getChapterOrder (str ''Old_Chap_7_AB_Title.md'') = 70"
proof -
  have "getChapterOrder (str ''Chap_5.md'') = 50"
    by (simp add: getChapterOrder_def order_match_here_def str_def is_digit_def parseInt10_def)
  moreover have "getChapterOrder (str ''Old_Chap_7_AB_Title.md'') = 70"
    by (simp add: getChapterOrder_def order_match_here_def str_def is_digit_def parseInt10_def)
  ultimately show ?thesis
    using not_conforming_Chap_5 not_conforming_Old_Chap_7 by simp
qed

text \<open>
  C10. The order key is not injective on conforming filenames: \<open>Chap_1-J_...\<close> and
  \<open>Chap_2_...\<close> both get 20. In general a sub-chapter with a letter from J to Z is ordered
  at or after the main chapter with the next number.
\<close>

theorem order_key_collision:
  "conforming (str ''Chap_1-J_AB_Title.md'') \<and> conforming (str ''Chap_2_AB_Title.md'') \<and>
   getChapterOrder (str ''Chap_1-J_AB_Title.md'') = 20 \<and>
   getChapterOrder (str ''Chap_2_AB_Title.md'') = 20 \<and>
   \<not> inj_on getChapterOrder {f. conforming f} \<and>
   (ds \<noteq> [] \<and> list_all is_digit ds \<and> ds' \<noteq> [] \<and> list_all is_digit ds' \<and>
    parseInt10 ds' = parseInt10 ds + 1 \<and> 74 \<le> l \<and> l \<le> 90 \<longrightarrow>
      getChapterOrder (chap_name ds' None rest') \<le> getChapterOrder (chap_name ds (Some l) rest))"
proof -
  let ?a = "str ''Chap_1-J_AB_Title.md''" and ?b = "str ''Chap_2_AB_Title.md''"
  have j: "is_upper 74" by (simp add: is_upper_def)
  have a: "?a = chap_name (str ''1'') (Some 74) (str ''AB_Title.md'')"
    by (simp add: chap_name_def str_def)
  have b: "?b = chap_name (str ''2'') None (str ''AB_Title.md'')"
    by (simp add: chap_name_def str_def)
  have ca: "conforming ?a"
    unfolding a using digits_1 j by (intro conforming_chap_name) simp_all
  have cb: "conforming ?b"
    unfolding b using digits_2 by (intro conforming_chap_name) simp_all
  have oa: "getChapterOrder ?a = 20"
    unfolding a using digits_1 j by (subst order_chap_name) simp_all
  have ob: "getChapterOrder ?b = 20"
    unfolding b using digits_2 by (subst order_chap_name) simp_all
  have ne: "?a \<noteq> ?b" by (simp add: str_def)
  have ninj: "\<not> inj_on getChapterOrder {f. conforming f}"
  proof
    assume i: "inj_on getChapterOrder {f. conforming f}"
    have "?a = ?b" by (rule inj_onD [OF i]) (simp_all add: oa ob ca cb)
    with ne show False by simp
  qed
  have gen: "getChapterOrder (chap_name ds' None rest') \<le> getChapterOrder (chap_name ds (Some l) rest)"
    if "ds \<noteq> []" "list_all is_digit ds" "ds' \<noteq> []" "list_all is_digit ds'"
      "parseInt10 ds' = parseInt10 ds + 1" "74 \<le> l" "l \<le> 90"
  proof -
    have "is_upper l" using that by (simp add: is_upper_def)
    then show ?thesis using that by (simp add: order_chap_name)
  qed
  from ca cb oa ob ninj gen show ?thesis by blast
qed

theorem order_key_collision_witness:
  "getChapterOrder (chap_name (str ''2'') None (str ''AB_Title.md'')) \<le>
   getChapterOrder (chap_name (str ''1'') (Some 75) (str ''AB_Title.md''))"
  using order_key_collision [of "str ''1''" "str ''2''" 75 "str ''AB_Title.md''" "str ''AB_Title.md''"]
    digits_1 digits_2 by simp


section \<open>Properties of the asset mirror\<close>

lemma is_image_name_iff: "is_image_name name \<longleftrightarrow> has_allowed_extension name"
proof
  assume "is_image_name name"
  then obtain e where e: "e \<in> set imageExts" "suffix e (toLowerCase name)"
    by (auto simp: is_image_name_def endsWith_def list_ex_iff)
  then obtain stem where s: "toLowerCase name = stem @ e" by (auto simp: suffix_def)
  from e(1) obtain x where "x \<in> set allowed_extensions" "e = 46 # x"
    by (auto simp: imageExts_def allowed_extensions_def str_def)
  with s show "has_allowed_extension name" unfolding has_allowed_extension_def by blast
next
  assume "has_allowed_extension name"
  then obtain stem x where x: "x \<in> set allowed_extensions" "toLowerCase name = stem @ 46 # x"
    unfolding has_allowed_extension_def by blast
  from x(1) have "46 # x \<in> set imageExts"
    by (auto simp: imageExts_def allowed_extensions_def str_def)
  moreover have "suffix (46 # x) (toLowerCase name)" using x(2) by (simp add: suffix_def)
  ultimately show "is_image_name name"
    by (auto simp: is_image_name_def endsWith_def list_ex_iff)
qed

lemma copies_simps [simp]:
  "copies [] = []" "copies (Mkdir d # ops) = copies ops"
  "copies (CopyFile a b # ops) = (a, b) # copies ops" "copies (xs @ ys) = copies xs @ copies ys"
  by (simp_all add: copies_def)

lemma copy_walk:
  "copies (fst (copyEntry (src @ rel) (dest @ rel) e)) = mirrored src dest (files_of rel e) \<and>
   snd (copyEntry (src @ rel) (dest @ rel) e) = length (mirrored src dest (files_of rel e))"
  "copies (fst (copyEntries (src @ rel) (dest @ rel) es)) = mirrored src dest (files_in rel es) \<and>
   snd (copyEntries (src @ rel) (dest @ rel) es) = length (mirrored src dest (files_in rel es))"
proof (induction rel e and rel es rule: files_of_files_in.induct)
  case (1 rel name)
  show ?case by (simp add: mirrored_def is_image_name_iff)
next
  case (2 rel name sub)
  then show ?case by (simp add: split_def)
next
  case (3 rel)
  show ?case by (simp add: mirrored_def)
next
  case (4 rel e es)
  then show ?case by (simp add: split_def mirrored_def)
qed

text \<open>
  C9. The copy operations of \<open>copyDir\<close> are exactly the files of the source tree whose
  lower-cased name ends with an allowed extension, each copied to the mirrored
  destination path; every other file is skipped; and the returned count is the number of
  files copied, over all levels of the tree.
\<close>

theorem asset_filter:
  "copies (fst (copyDir src dest entries)) = mirrored src dest (files_in [] entries) \<and>
   snd (copyDir src dest entries) = length (copies (fst (copyDir src dest entries)))"
  using copy_walk(2) [of src "[]" dest entries] by (simp add: copyDir_def split_def)

text \<open>
  A mixed directory: of \<open>a.JPG\<close>, \<open>b.txt\<close> and \<open>chapters/c.png\<close> the two images are
  copied, and the count is 2.
\<close>

lemma asset_filter_example:
  "copyDir [str ''_assets''] [str ''public'']
     [File (str ''a.JPG''), File (str ''b.txt''), Directory (str ''chapters'') [File (str ''c.png'')]] =
   ([Mkdir [str ''public''],
     CopyFile [str ''_assets'', str ''a.JPG''] [str ''public'', str ''a.JPG''],
     Mkdir [str ''public'', str ''chapters''],
     CopyFile [str ''_assets'', str ''chapters'', str ''c.png'']
       [str ''public'', str ''chapters'', str ''c.png'']], 2)"
  by (simp add: copyDir_def is_image_name_def imageExts_def endsWith_def toLowerCase_def
      str_def suffix_def)

section \<open>Properties of the publisher\<close>






lemma publish_loop_report: "publish_loop try_block files = map (report try_block) files"
  by (induction files) (simp_all add: report_def split: sum.splits error.splits outcome.splits)

lemma truthy_creds:
  "(\<not> truthy (WP_USER rt) \<or> \<not> truthy (WP_APP_PASSWORD rt)) = credentials_missing rt"
  by (auto simp: truthy_def credentials_missing_def split: option.splits)

text \<open>
  C8. The exit code is 1 exactly when there are files to publish and the credentials are
  missing, and 0 otherwise. With credentials, every markdown file of the batch is
  processed, in order, whatever happened to the files before it: an exception thrown
  while processing a file is caught and reported with the name of that file, and the
  loop goes on to the next file.
\<close>

theorem failure_isolation:
  "(snd (main rt argv try_block) = 1 \<longleftrightarrow> md_files argv \<noteq> [] \<and> credentials_missing rt) \<and>
   (snd (main rt argv try_block) \<noteq> 1 \<longrightarrow> snd (main rt argv try_block) = 0) \<and>
   (md_files argv \<noteq> [] \<and> \<not> credentials_missing rt \<longrightarrow>
      fst (main rt argv try_block) =
        Publishing (length (md_files argv)) # map (report try_block) (md_files argv) @ [AllDone])"
  using truthy_creds [of rt]
  by (simp add: main_def Let_def md_files_def endsWith_def publish_loop_report)

theorem failure_isolation_witness:
  "main demo_runtime [str ''a.md'', str ''b.md'', str ''notes.txt'', str ''c.md'']
     (\<lambda>f. if f = str ''b.md'' then Inl (Error (str ''ENOENT'')) else Inr (Posted False f (str ''l''))) =
   ([Publishing 3,
     Succeeded (str ''a.md'') False (str ''a.md'') (str ''l''),
     Failed (str ''b.md'') (str ''ENOENT''),
     Succeeded (str ''c.md'') False (str ''c.md'') (str ''l''),
     AllDone], 0)"
proof -
  let ?argv = "[str ''a.md'', str ''b.md'', str ''notes.txt'', str ''c.md'']"
  let ?blk = "\<lambda>f. if f = str ''b.md'' then Inl (Error (str ''ENOENT'')) else Inr (Posted False f (str ''l''))"
  have m: "md_files ?argv = [str ''a.md'', str ''b.md'', str ''c.md'']"
    by (simp add: md_files_def str_def suffix_def)
  have c: "\<not> credentials_missing demo_runtime"
    by (simp add: credentials_missing_def demo_runtime_def str_def)
  have r: "map (report ?blk) [str ''a.md'', str ''b.md'', str ''c.md''] =
           [Succeeded (str ''a.md'') False (str ''a.md'') (str ''l''),
            Failed (str ''b.md'') (str ''ENOENT''),
            Succeeded (str ''c.md'') False (str ''c.md'') (str ''l'')]"
    by (simp add: report_def str_def)
  show ?thesis
    using failure_isolation [of demo_runtime ?argv ?blk] m c r
    by (simp add: prod_eq_iff)
qed

section \<open>Properties of the excerpt\<close>

lemma remove_last_word_length: "length (remove_last_word xs) \<le> length xs"
  by (induction xs) auto

lemma remove_last_word_no_space:
  "list_all (\<lambda>x. \<not> isWhiteSpace x) xs \<Longrightarrow> remove_last_word xs = xs"
  by (induction xs) auto

lemma remove_last_word_space:
  "list_ex isWhiteSpace xs \<Longrightarrow>
   \<exists>gap word. xs = remove_last_word xs @ gap @ word \<and> gap \<noteq> [] \<and> list_all isWhiteSpace gap \<and>
     list_all (\<lambda>x. \<not> isWhiteSpace x) word \<and>
     (remove_last_word xs = [] \<or> \<not> isWhiteSpace (last (remove_last_word xs)))"
proof (induction xs)
  case Nil
  then show ?case by simp
next
  case (Cons c cs)
  let ?tail = "list_all (\<lambda>x. \<not> isWhiteSpace x) (dropWhile isWhiteSpace cs)"
  show ?case
  proof (cases "isWhiteSpace c \<and> ?tail")
    case True
    have "c # cs = [] @ (c # takeWhile isWhiteSpace cs) @ dropWhile isWhiteSpace cs" by simp
    moreover have "list_all isWhiteSpace (c # takeWhile isWhiteSpace cs)"
      using True by (simp add: list_all_iff) (meson set_takeWhileD)
    ultimately show ?thesis using True
      by (intro exI [of _ "c # takeWhile isWhiteSpace cs"] exI [of _ "dropWhile isWhiteSpace cs"]) simp
  next
    case False
    then have r: "remove_last_word (c # cs) = c # remove_last_word cs" by auto
    have ex: "list_ex isWhiteSpace cs"
    proof (cases "isWhiteSpace c")
      case True
      with False have "\<not> ?tail" by simp
      then obtain x where "x \<in> set (dropWhile isWhiteSpace cs)" "isWhiteSpace x"
        by (auto simp: list_all_iff)
      then show ?thesis by (auto simp: list_ex_iff dest: set_dropWhileD)
    next
      case False
      with Cons.prems show ?thesis by simp
    qed
    from Cons.IH [OF ex] obtain gap word where g:
      "cs = remove_last_word cs @ gap @ word" "gap \<noteq> []" "list_all isWhiteSpace gap"
      "list_all (\<lambda>x. \<not> isWhiteSpace x) word"
      "remove_last_word cs = [] \<or> \<not> isWhiteSpace (last (remove_last_word cs))"
      by blast
    have last_ok: "\<not> isWhiteSpace (last (c # remove_last_word cs))"
    proof (cases "remove_last_word cs = []")
      case True
      with g(1) have cs: "cs = gap @ word" by simp
      have "dropWhile isWhiteSpace cs = word"
      proof (cases word)
        case Nil
        with cs g(3) show ?thesis by (simp add: list_all_iff)
      next
        case (Cons w ws)
        with g(4) have "\<not> isWhiteSpace w" by simp
        with cs g(3) Cons show ?thesis
          by (simp add: list_all_iff dropWhile_append2)
      qed
      with g(4) have "?tail" by simp
      with False have "\<not> isWhiteSpace c" by simp
      with True show ?thesis by simp
    next
      case False
      with g(5) show ?thesis by simp
    qed
    from g(1) have "c # cs = (c # remove_last_word cs) @ gap @ word" by simp
    with g(2,3,4) last_ok show ?thesis unfolding r by blast
  qed
qed

lemma remove_last_word_cut: "cut_before_last_space xs (remove_last_word xs)"
proof (cases "list_ex isWhiteSpace xs")
  case True
  with remove_last_word_space [OF True] show ?thesis
    unfolding cut_before_last_space_def by simp
next
  case False
  then have "list_all (\<lambda>x. \<not> isWhiteSpace x) xs" by (simp add: list_all_iff list_ex_iff)
  with False show ?thesis
    unfolding cut_before_last_space_def by (simp add: remove_last_word_no_space)
qed

text \<open>
  C6, as the code has it. The excerpt has at most \<open>maxLength + 3\<close> characters (503 for
  the default 500). Plain text of at most \<open>maxLength\<close> characters is returned as it is.
  Longer plain text is cut to its first \<open>maxLength\<close> characters, these are cut again at
  the start of their last run of white space, and \<open>...\<close> is appended; when the first
  \<open>maxLength\<close> characters hold no white space they are all kept.
\<close>

theorem excerpt_truncation:
  "length (createExcerpt content n) \<le> n + 3 \<and>
   (length (plainText content) \<le> n \<longrightarrow> createExcerpt content n = plainText content) \<and>
   (n < length (plainText content) \<longrightarrow>
      (\<exists>kept. createExcerpt content n = kept @ str ''...'' \<and>
         cut_before_last_space (take n (plainText content)) kept))"
proof (intro conjI impI)
  have "length (remove_last_word (take n (plainText content))) \<le> n"
    using remove_last_word_length [of "take n (plainText content)"] by simp
  then show "length (createExcerpt content n) \<le> n + 3"
    by (simp add: createExcerpt_def str_def)
next
  assume "length (plainText content) \<le> n"
  then show "createExcerpt content n = plainText content"
    by (simp add: createExcerpt_def)
next
  assume "n < length (plainText content)"
  then have "createExcerpt content n = remove_last_word (take n (plainText content)) @ str ''...''"
    by (simp add: createExcerpt_def)
  with remove_last_word_cut show "\<exists>kept. createExcerpt content n = kept @ str ''...'' \<and>
         cut_before_last_space (take n (plainText content)) kept"
    by blast
qed

text \<open>Text without images, markers, newlines, and without white space at its ends, is plain.\<close>

lemma match_image_None: "s = [] \<or> hd s \<noteq> 33 \<Longrightarrow> match_image s = None"
  by (cases s) (auto simp: match_image_def)

lemma remove_images_id: "33 \<notin> set s \<Longrightarrow> remove_images s = s"
  by (induction s) (auto simp: match_image_None)

lemma remove_markers_id:
  "35 \<notin> set s \<Longrightarrow> 42 \<notin> set s \<Longrightarrow> 95 \<notin> set s \<Longrightarrow> 96 \<notin> set s \<Longrightarrow> remove_markers s = s"
  unfolding remove_markers_def by (induction s) auto

lemma newlines_to_space_id: "10 \<notin> set s \<Longrightarrow> newlines_to_space s = s"
  by (induction s) auto

lemma trim_id: "s \<noteq> [] \<Longrightarrow> \<not> isWhiteSpace (hd s) \<Longrightarrow> \<not> isWhiteSpace (last s) \<Longrightarrow> trim s = s"
proof -
  assume a: "s \<noteq> []" "\<not> isWhiteSpace (hd s)" "\<not> isWhiteSpace (last s)"
  then have 1: "dropWhile isWhiteSpace s = s" by (cases s) auto
  from a have "rev s \<noteq> []" "\<not> isWhiteSpace (hd (rev s))" by (simp_all add: hd_rev)
  then have "dropWhile isWhiteSpace (rev s) = rev s" by (cases "rev s") auto
  with 1 show ?thesis by (simp add: trim_def)
qed

lemma plainText_id:
  assumes "set s \<inter> {33, 35, 42, 95, 96, 10} = {}" "s \<noteq> []"
    "\<not> isWhiteSpace (hd s)" "\<not> isWhiteSpace (last s)"
  shows "plainText s = s"
  using assms by (simp add: plainText_def remove_images_id remove_markers_id newlines_to_space_id trim_id)

lemma plain_long_word: "plainText (replicate 600 97) = replicate 600 97"
  by (rule plainText_id) (auto simp: isWhiteSpace_def)

text \<open>
  C6 as stated fails: the plain text of 600 letters \<open>a\<close> is one word, and its excerpt
  is the first 500 letters and the ellipsis, a cut in the middle of the word.
\<close>

theorem excerpt_mid_word_counterexample:
  "plainText (replicate 600 97) = replicate 600 97 \<and>
   createExcerpt (replicate 600 97) 500 = replicate 500 97 @ str ''...''"
proof -
  have "remove_last_word (replicate 500 97) = replicate 500 97"
    by (rule remove_last_word_no_space) (simp add: list_all_iff isWhiteSpace_def)
  then show ?thesis
    by (simp add: createExcerpt_def plain_long_word)
qed

lemma plain_two_words:
  "plainText (replicate 300 97 @ 32 # replicate 300 98) = replicate 300 97 @ 32 # replicate 300 98"
  by (rule plainText_id) (auto simp: isWhiteSpace_def hd_append)

theorem excerpt_truncation_witness:
  "500 < length (plainText (replicate 300 97 @ 32 # replicate 300 98)) \<and>
   (\<exists>kept. createExcerpt (replicate 300 97 @ 32 # replicate 300 98) 500 = kept @ str ''...'' \<and>
      cut_before_last_space (take 500 (plainText (replicate 300 97 @ 32 # replicate 300 98))) kept) \<and>
   length (plainText (str ''short text'')) \<le> 500 \<and>
   createExcerpt (str ''short text'') 500 = plainText (str ''short text'')"
proof -
  have l: "500 < length (plainText (replicate 300 97 @ 32 # replicate 300 98))"
    by (simp add: plain_two_words)
  have "plainText (str ''short text'') = str ''short text''"
    by (rule plainText_id) (auto simp: isWhiteSpace_def str_def)
  then have s: "length (plainText (str ''short text'')) \<le> 500" by (simp add: str_def)
  show ?thesis
    using excerpt_truncation [of "replicate 300 97 @ 32 # replicate 300 98" 500]
      excerpt_truncation [of "str ''short text''" 500] l s
    by blast
qed

lemma two_words_excerpt:
  "createExcerpt (replicate 300 97 @ 32 # replicate 300 98) 500 = replicate 300 97 @ str ''...''"
proof -
  have t: "take 500 (replicate 300 97 @ 32 # replicate 300 98) = replicate 300 97 @ 32 # replicate 199 98"
    by simp
  have "remove_last_word (replicate n 97 @ 32 # replicate 199 98) = replicate n 97" for n
    by (induction n) (auto simp: isWhiteSpace_def list_all_iff)
  with t show ?thesis by (simp add: createExcerpt_def plain_two_words)
qed

section \<open>Properties of the synchronizer\<close>

lemma fold_syncChapter_other:
  "file \<notin> fst ` set fs \<Longrightarrow> fold syncChapter fs d file = d file"
  by (induction fs arbitrary: d) (auto simp: syncChapter_def)

lemma fold_syncChapter:
  "distinct (map fst fs) \<Longrightarrow> (file, content) \<in> set fs \<Longrightarrow>
   fold syncChapter fs d file = Some (newContent file content)"
proof (induction fs arbitrary: d)
  case Nil
  then show ?case by simp
next
  case (Cons fc fs)
  show ?case
  proof (cases "fc = (file, content)")
    case True
    with Cons.prems have "file \<notin> fst ` set fs" by auto
    then have "fold syncChapter fs (syncChapter fc d) file = syncChapter fc d file"
      by (rule fold_syncChapter_other)
    moreover have "syncChapter (file, content) d file = Some (newContent file content)"
      unfolding syncChapter_def by simp
    ultimately show ?thesis using True by simp
  next
    case False
    with Cons.prems have "distinct (map fst fs)" "(file, content) \<in> set fs" by auto
    from Cons.IH [OF this] show ?thesis by simp
  qed
qed

lemma syncNovel_file:
  assumes "distinct (map fst files)" "(file, content) \<in> set files" "endsWith file (str ''.md'')"
  shows "fst (syncNovel (Some files) dest) file = Some (newContent file content)"
proof -
  let ?md = "filter (\<lambda>fc. endsWith (fst fc) (str ''.md'')) files"
  have "distinct (map fst ?md)" using assms(1) by (rule distinct_map_filter)
  moreover have "(file, content) \<in> set ?md" using assms(2,3) by simp
  ultimately show ?thesis by (simp add: syncNovel_def fold_syncChapter)
qed

lemma newContent_lines:
  "newContent file content =
     str ''---'' @ [10] @ join [10] (frontmatter_lines file content) @ [10] @ str ''---''
       @ [10, 10] @ snd (parseFrontmatter content)"
  by (simp add: newContent_def generateFrontmatter_def frontmatter_lines_def front_matter_of_def
      split_def Let_def)

lemma cover_keys_not_title_order:
  "k \<in> set cover_keys \<Longrightarrow> k \<noteq> str ''title'' \<and> k \<noteq> str ''order''"
  by (auto simp: cover_keys_def str_def)

lemma preserved_keys: "set (map fst (preserved existing k)) \<subseteq> {k}"
  by (auto simp: preserved_def split: option.splits)

lemma cover_kept:
  assumes "k \<in> set cover_keys" "front_matter_of content k = Some v" "v \<noteq> []"
  shows "k @ [58, 32, 34] @ v @ [34] \<in> set (frontmatter_lines file content)"
proof -
  have "(k, FString v) \<in> set (frontmatter_fields file (front_matter_of content))"
    using assms by (auto simp: frontmatter_fields_def preserved_def cover_keys_def)
  then have "render_field (k, FString v) \<in> set (frontmatter_lines file content)"
    unfolding frontmatter_lines_def by (simp add: image_iff) blast
  then show ?thesis by (simp add: render_field_def)
qed

lemma cover_absent:
  assumes "k \<in> set cover_keys" "front_matter_of content k = None \<or> front_matter_of content k = Some []"
  shows "k \<notin> fst ` set (frontmatter_fields file (front_matter_of content))"
  using assms cover_keys_not_title_order [OF assms(1)]
  by (auto simp: frontmatter_fields_def preserved_def cover_keys_def str_def split: option.splits if_splits)

lemma chapter_with_cover_units:
  "chapter_with_cover =
     [45, 45, 45, 10, 99, 111, 118, 101, 114, 58, 32, 34, 120, 46, 106, 112, 103, 34, 10, 45, 45, 45,
      10, 10, 66, 111, 100, 121]"
  by (simp add: chapter_with_cover_def str_def)

lemma regenerated_chapter_units:
  "regenerated_chapter =
     [45, 45, 45, 10, 116, 105, 116, 108, 101, 58, 32, 34, 84, 34, 10, 111, 114, 100, 101, 114, 58,
      32, 49, 48, 10, 45, 45, 45, 10, 10, 66, 111, 100, 121]"
  by (simp add: regenerated_chapter_def str_def)

lemma parse_chapter_with_cover:
  "parseFrontmatter chapter_with_cover =
     (Some [99, 111, 118, 101, 114, 58, 32, 34, 120, 46, 106, 112, 103, 34], str ''Body'')"
  unfolding chapter_with_cover_units
  by (simp add: parseFrontmatter_def trim_def isWhiteSpace_def str_def)

lemma parse_regenerated_chapter:
  "parseFrontmatter regenerated_chapter =
     (Some [116, 105, 116, 108, 101, 58, 32, 34, 84, 34, 10, 111, 114, 100, 101, 114, 58, 32, 49, 48],
      str ''Body'')"
  unfolding regenerated_chapter_units
  by (simp add: parseFrontmatter_def trim_def isWhiteSpace_def str_def)

lemma parse_line_cover:
  "parse_line [99, 111, 118, 101, 114, 58, 32, 34, 120, 46, 106, 112, 103, 34] =
     Some (str ''cover'', str ''x.jpg'')"
  by (simp add: parse_line_def trim_def strip_quotes_def isWhiteSpace_def str_def)

lemma parse_line_title:
  "parse_line [116, 105, 116, 108, 101, 58, 32, 34, 84, 34] = Some (str ''title'', str ''T'')"
  by (simp add: parse_line_def trim_def strip_quotes_def isWhiteSpace_def str_def)

lemma parse_line_order:
  "parse_line [111, 114, 100, 101, 114, 58, 32, 49, 48] = Some (str ''order'', str ''10'')"
  by (simp add: parse_line_def trim_def strip_quotes_def isWhiteSpace_def str_def)

lemma front_matter_with_cover:
  "front_matter_of chapter_with_cover = [str ''cover'' \<mapsto> str ''x.jpg'']"
  by (simp add: front_matter_of_def parse_chapter_with_cover parseYamlFrontmatter_def parse_line_cover)

lemma front_matter_without:
  "front_matter_of chapter_without_front_matter = Map.empty"
  by (simp add: front_matter_of_def chapter_without_front_matter_def parseFrontmatter_def
      parseYamlFrontmatter_def str_def)

lemma front_matter_regenerated:
  "front_matter_of regenerated_chapter = [str ''title'' \<mapsto> str ''T'', str ''order'' \<mapsto> str ''10'']"
  by (simp add: front_matter_of_def parse_regenerated_chapter parseYamlFrontmatter_def
      parse_line_title parse_line_order)

lemma title_of_Chap_1: "defaultTitle (str ''Chap_1_A_T.md'') = str ''T''"
proof -
  have "title_match_here (str ''Chap_1_A_T.md'') = Some (str ''T'')"
    by (simp add: title_match_here_def str_def is_digit_def is_upper_def isLineTerminator_def
        suffix_def Let_def)
  then have "title_match (str ''Chap_1_A_T.md'') = Some (str ''T'')"
    by (simp add: str_def)
  then show ?thesis by (simp add: defaultTitle_def str_def)
qed

lemma order_of_Chap_1: "getChapterOrder (str ''Chap_1_A_T.md'') = 10"
  by (simp add: getChapterOrder_def order_match_here_def str_def is_digit_def parseInt10_def)

lemma show_nat_10: "show_nat 10 = str ''10''"
  by (simp add: show_nat.simps str_def)

lemma newContent_without:
  "newContent (str ''Chap_1_A_T.md'') chapter_without_front_matter = regenerated_chapter"
proof -
  have "frontmatter_lines (str ''Chap_1_A_T.md'') chapter_without_front_matter =
          [str ''title: '' @ [34] @ str ''T'' @ [34], str ''order: 10'']"
    by (simp add: frontmatter_lines_def front_matter_without frontmatter_fields_def preserved_def
        title_of_Chap_1 order_of_Chap_1 render_field_def show_nat_10) (simp add: str_def)
  moreover have "snd (parseFrontmatter chapter_without_front_matter) = str ''Body''"
    by (simp add: chapter_without_front_matter_def parseFrontmatter_def str_def)
  ultimately show ?thesis
    by (simp add: newContent_lines regenerated_chapter_def)
qed

text \<open>
  C1, as the code has it. \<open>syncNovel\<close> writes every markdown file of the project to the
  content directory as front matter generated from the file name and from the front
  matter of the source file, a blank line, and the body of the source file; what the
  content directory held before is not read. A \<open>cover\<close>, \<open>cover_url\<close> or
  \<open>cover_media_id\<close> field of the source front matter with a non-empty value is written
  with that value, and a field the source lacks is not written. The second line is always
  the order computed from the file name, and the first line is the title of the source
  front matter, or the title derived from the file name when the source has none.
\<close>

theorem front_matter_regeneration:
  "(distinct (map fst files) \<and> (file, content) \<in> set files \<and> endsWith file (str ''.md'') \<longrightarrow>
      fst (syncNovel (Some files) dest) file =
        Some (str ''---'' @ [10] @ join [10] (frontmatter_lines file content) @ [10] @ str ''---''
              @ [10, 10] @ snd (parseFrontmatter content))) \<and>
   (k \<in> set cover_keys \<and> front_matter_of content k = Some v \<and> v \<noteq> [] \<longrightarrow>
      k @ [58, 32, 34] @ v @ [34] \<in> set (frontmatter_lines file content)) \<and>
   (k \<in> set cover_keys \<and> (front_matter_of content k = None \<or> front_matter_of content k = Some []) \<longrightarrow>
      k \<notin> fst ` set (frontmatter_fields file (front_matter_of content))) \<and>
   frontmatter_lines file content ! 1 = str ''order: '' @ show_nat (getChapterOrder file) \<and>
   frontmatter_lines file content ! 0 =
     str ''title: '' @ [34]
     @ (case front_matter_of content (str ''title'') of
          Some t \<Rightarrow> if t \<noteq> [] then t else defaultTitle file
        | None \<Rightarrow> defaultTitle file)
     @ [34]"
proof (intro conjI impI)
  assume "distinct (map fst files) \<and> (file, content) \<in> set files \<and> endsWith file (str ''.md'')"
  then have "fst (syncNovel (Some files) dest) file = Some (newContent file content)"
    by (simp add: syncNovel_file)
  then show "fst (syncNovel (Some files) dest) file =
        Some (str ''---'' @ [10] @ join [10] (frontmatter_lines file content) @ [10] @ str ''---''
              @ [10, 10] @ snd (parseFrontmatter content))"
    by (simp only: newContent_lines)
next
  assume "k \<in> set cover_keys \<and> front_matter_of content k = Some v \<and> v \<noteq> []"
  then show "k @ [58, 32, 34] @ v @ [34] \<in> set (frontmatter_lines file content)"
    using cover_kept by blast
next
  assume "k \<in> set cover_keys \<and> (front_matter_of content k = None \<or> front_matter_of content k = Some [])"
  then show "k \<notin> fst ` set (frontmatter_fields file (front_matter_of content))"
    using cover_absent by blast
next
  show "frontmatter_lines file content ! 1 = str ''order: '' @ show_nat (getChapterOrder file)"
    by (simp add: frontmatter_lines_def frontmatter_fields_def render_field_def str_def)
next
  show "frontmatter_lines file content ! 0 =
     str ''title: '' @ [34]
     @ (case front_matter_of content (str ''title'') of
          Some t \<Rightarrow> if t \<noteq> [] then t else defaultTitle file
        | None \<Rightarrow> defaultTitle file)
     @ [34]"
    by (simp add: frontmatter_lines_def frontmatter_fields_def render_field_def str_def)
qed

theorem front_matter_regeneration_witness:
  "fst (syncNovel (Some [(str ''Chap_1_A_T.md'', chapter_with_cover)]) Map.empty) (str ''Chap_1_A_T.md'') =
     Some (str ''---'' @ [10]
           @ join [10] (frontmatter_lines (str ''Chap_1_A_T.md'') chapter_with_cover)
           @ [10] @ str ''---'' @ [10, 10] @ snd (parseFrontmatter chapter_with_cover)) \<and>
   str ''cover'' @ [58, 32, 34] @ str ''x.jpg'' @ [34]
     \<in> set (frontmatter_lines (str ''Chap_1_A_T.md'') chapter_with_cover) \<and>
   str ''cover'' \<notin> fst ` set (frontmatter_fields (str ''Chap_1_A_T.md'')
                                 (front_matter_of chapter_without_front_matter))"
proof -
  have k: "str ''cover'' \<in> set cover_keys" by (simp add: cover_keys_def)
  have e: "endsWith (str ''Chap_1_A_T.md'') (str ''.md'')"
    by (simp add: endsWith_def suffix_def str_def)
  have v: "str ''x.jpg'' \<noteq> []" by (simp add: str_def)
  show ?thesis
    using front_matter_regeneration [of "[(str ''Chap_1_A_T.md'', chapter_with_cover)]"
        "str ''Chap_1_A_T.md''" chapter_with_cover Map.empty "str ''cover''" "str ''x.jpg''"]
      front_matter_regeneration [of "[]" "str ''Chap_1_A_T.md''" chapter_without_front_matter
        Map.empty "str ''cover''" "[]"]
      k e v front_matter_with_cover front_matter_without
    by simp
qed

text \<open>
  C1 as stated fails: the content directory holds \<open>Chap_1_A_T.md\<close> with \<open>cover: "x.jpg"\<close>,
  the source file has no front matter, and after the sync the file in the content
  directory has no cover field.
\<close>

theorem destination_cover_counterexample:
  "stale_dest (str ''Chap_1_A_T.md'') = Some chapter_with_cover \<and>
   front_matter_of chapter_with_cover (str ''cover'') = Some (str ''x.jpg'') \<and>
   front_matter_of chapter_without_front_matter (str ''cover'') = None \<and>
   fst (syncNovel (Some [(str ''Chap_1_A_T.md'', chapter_without_front_matter)]) stale_dest)
     (str ''Chap_1_A_T.md'') = Some regenerated_chapter \<and>
   front_matter_of regenerated_chapter (str ''cover'') = None"
proof -
  have e: "endsWith (str ''Chap_1_A_T.md'') (str ''.md'')"
    by (simp add: endsWith_def suffix_def str_def)
  have "fst (syncNovel (Some [(str ''Chap_1_A_T.md'', chapter_without_front_matter)]) stale_dest)
     (str ''Chap_1_A_T.md'') = Some regenerated_chapter"
    using e by (simp add: syncNovel_file newContent_without)
  moreover have "front_matter_of regenerated_chapter (str ''cover'') = None"
    by (simp add: front_matter_regenerated str_def)
  ultimately show ?thesis
    by (simp add: stale_dest_def front_matter_with_cover front_matter_without)
qed

section \<open>Properties of the cleaner\<close>

lemma prefix_replicate_run:
  "prefix (replicate k a) s \<longleftrightarrow> k \<le> length (takeWhile (\<lambda>x. x = a) s)"
proof (induction k arbitrary: s)
  case 0
  show ?case by simp
next
  case (Suc k)
  show ?case by (cases s) (auto simp: Suc)
qed

lemma nl4: "[10, 10, 10, 10] = replicate 4 (10::nat)" and nl3: "[10, 10, 10] = replicate 3 (10::nat)"
  by (simp_all add: numeral_eq_Suc)

lemma prefix_nl4: "prefix [10, 10, 10, 10] s \<longleftrightarrow> 4 \<le> length (takeWhile (\<lambda>x. x = (10::nat)) s)"
  unfolding nl4 by (rule prefix_replicate_run)

lemma takeWhile_run: "takeWhile (\<lambda>x. x = a) s = replicate (length (takeWhile (\<lambda>x. x = a) s)) a"
  by (induction s) auto

lemma run_dropWhile [simp]: "takeWhile (\<lambda>x. x = a) (dropWhile (\<lambda>x. x = a) s) = []"
  by (induction s) auto

lemma collapse_skip:
  "\<not> prefix [10, 10, 10, 10] (c # cs) \<Longrightarrow>
   collapse_blank_lines (c # cs) = c # collapse_blank_lines cs"
  by auto

lemma collapse_match:
  "prefix [10, 10, 10, 10] (c # cs) \<Longrightarrow>
   collapse_blank_lines (c # cs) = 10 # 10 # 10 # collapse_blank_lines (dropWhile (\<lambda>x. x = 10) cs)"
  by auto

lemma collapse_leading:
  "length (takeWhile (\<lambda>x. x = 10) (collapse_blank_lines s)) =
   min 3 (length (takeWhile (\<lambda>x. x = 10) s))"
proof (induction s rule: collapse_blank_lines.induct)
  case 1
  show ?case by simp
next
  case (2 c cs)
  show ?case
  proof (cases "prefix [10, 10, 10, 10] (c # cs)")
    case True
    then have "4 \<le> length (takeWhile (\<lambda>x. x = 10) (c # cs))" unfolding prefix_nl4 .
    moreover have "length (takeWhile (\<lambda>x. x = 10) (collapse_blank_lines (dropWhile (\<lambda>x. x = 10) cs))) = 0"
      using 2(1) [OF True] by simp
    ultimately show ?thesis unfolding collapse_match [OF True] by simp
  next
    case False
    then have small: "length (takeWhile (\<lambda>x. x = 10) (c # cs)) < 4" unfolding prefix_nl4 by simp
    from False have r: "collapse_blank_lines (c # cs) = c # collapse_blank_lines cs"
      by (rule collapse_skip)
    show ?thesis
    proof (cases "c = 10")
      case True
      with small 2(2) [OF False] show ?thesis unfolding r by simp
    next
      case False
      then show ?thesis unfolding r by simp
    qed
  qed
qed

lemma collapse_no_long_run: "\<not> sublist [10, 10, 10, 10] (collapse_blank_lines s)"
proof (induction s rule: collapse_blank_lines.induct)
  case 1
  show ?case by simp
next
  case (2 c cs)
  have here: "\<not> prefix [10, 10, 10, 10] (collapse_blank_lines (c # cs))"
    using collapse_leading [of "c # cs"] unfolding prefix_nl4 by simp
  show ?case
  proof (cases "prefix [10, 10, 10, 10] (c # cs)")
    case True
    let ?r = "collapse_blank_lines (dropWhile (\<lambda>x. x = 10) cs)"
    have "length (takeWhile (\<lambda>x. x = 10) ?r) = 0"
      using collapse_leading [of "dropWhile (\<lambda>x. x = 10) cs"] by simp
    then have nohd: "?r = [] \<or> hd ?r \<noteq> 10" by (cases ?r) (auto split: if_splits)
    have eq: "collapse_blank_lines (c # cs) = 10 # 10 # 10 # ?r" using True by (rule collapse_match)
    from nohd 2(1) [OF True] show ?thesis
      unfolding eq by (cases ?r) (auto simp: sublist_Cons_right)
  next
    case False
    then have eq: "collapse_blank_lines (c # cs) = c # collapse_blank_lines cs"
      by (rule collapse_skip)
    from here 2(2) [OF False] show ?thesis
      unfolding eq by (simp add: sublist_Cons_right)
  qed
qed

lemma collapse_fixed: "\<not> sublist [10, 10, 10, 10] s \<Longrightarrow> collapse_blank_lines s = s"
proof (induction s)
  case Nil
  show ?case by simp
next
  case (Cons c cs)
  then have np: "\<not> prefix [10, 10, 10, 10] (c # cs)" and "\<not> sublist [10, 10, 10, 10] cs"
    by (simp_all add: sublist_Cons_right)
  then have "collapse_blank_lines cs = cs" by (simp add: Cons.IH)
  moreover have "collapse_blank_lines (c # cs) = c # collapse_blank_lines cs"
    using np by (rule collapse_skip)
  ultimately show ?case by (simp only:)
qed

lemma fence_skip:
  "\<not> prefix [45, 45, 45, 10, 10] (c # cs) \<Longrightarrow>
   blank_after_fence (c # cs) = c # blank_after_fence cs"
  by auto

lemma fence_match:
  "prefix [45, 45, 45, 10, 10] (c # cs) \<Longrightarrow>
   blank_after_fence (c # cs) =
     45 # 45 # 45 # 10 # 10 # blank_after_fence (dropWhile (\<lambda>x. x = 10) (drop 4 cs))"
  by auto

lemma fence_hd: "\<exists>t. blank_after_fence (c # cs) = c # t"
  by auto

lemma fence_leading:
  "takeWhile (\<lambda>x. x = 10) (blank_after_fence s) = takeWhile (\<lambda>x. x = 10) s"
proof (induction s)
  case Nil
  show ?case by simp
next
  case (Cons c cs)
  show ?case
  proof (cases "c = 10")
    case True
    then have "blank_after_fence (c # cs) = c # blank_after_fence cs" by (intro fence_skip) simp
    with Cons True show ?thesis by simp
  next
    case False
    from fence_hd obtain t where "blank_after_fence (c # cs) = c # t" by blast
    with False show ?thesis by simp
  qed
qed

lemma fence_prefix_nl4:
  "prefix [10, 10, 10, 10] (blank_after_fence s) \<longleftrightarrow> prefix [10, 10, 10, 10] s"
  unfolding prefix_nl4 fence_leading ..

lemma sublist_of_suffix: "sublist xs (dropWhile P (drop n ys)) \<Longrightarrow> sublist xs ys"
proof -
  assume a: "sublist xs (dropWhile P (drop n ys))"
  have "sublist (dropWhile P (drop n ys)) (drop n ys)" "sublist (drop n ys) ys" by simp_all
  with a show ?thesis by (meson sublist_order.order.trans)
qed

lemma fence_no_long_run:
  "sublist [10, 10, 10, 10] (blank_after_fence s) \<Longrightarrow> sublist [10, 10, 10, 10] s"
proof (induction s rule: blank_after_fence.induct)
  case 1
  then show ?case by simp
next
  case (2 c cs)
  show ?case
  proof (cases "prefix [45, 45, 45, 10, 10] (c # cs)")
    case True
    let ?rest = "dropWhile (\<lambda>x. x = 10) (drop 4 cs)"
    have "takeWhile (\<lambda>x. x = 10) (blank_after_fence ?rest) = []"
      by (simp add: fence_leading)
    then have "\<not> prefix [10, 10] (blank_after_fence ?rest)" "\<not> prefix [10, 10, 10] (blank_after_fence ?rest)"
      by (cases "blank_after_fence ?rest"; auto split: if_splits)+
    with 2(3) have "sublist [10, 10, 10, 10] (blank_after_fence ?rest)"
      unfolding fence_match [OF True] by (simp add: sublist_Cons_right)
    from 2(1) [OF True this] have "sublist [10, 10, 10, 10] (dropWhile (\<lambda>x. x = 10) (drop 5 (c # cs)))"
      by simp
    then show ?thesis by (rule sublist_of_suffix)
  next
    case False
    from 2(3) have "prefix [10, 10, 10, 10] (blank_after_fence (c # cs)) \<or>
        sublist [10, 10, 10, 10] (blank_after_fence cs)"
      unfolding fence_skip [OF False] sublist_Cons_right .
    then show ?thesis
    proof
      assume "prefix [10, 10, 10, 10] (blank_after_fence (c # cs))"
      then have "prefix [10, 10, 10, 10] (c # cs)" by (simp only: fence_prefix_nl4)
      then show ?thesis by (rule prefix_imp_sublist)
    next
      assume "sublist [10, 10, 10, 10] (blank_after_fence cs)"
      from 2(2) [OF False this] show ?thesis by (simp add: sublist_Cons_right)
    qed
  qed
qed

lemma fence_hd_inv:
  assumes "prefix (c # p) (blank_after_fence s)"
  shows "\<exists>cs. s = c # cs"
proof (cases s)
  case Nil
  with assms show ?thesis by simp
next
  case (Cons a cs)
  obtain t where "blank_after_fence (a # cs) = a # t" using fence_hd by blast
  with assms Cons show ?thesis by simp
qed

lemma fence_head_once: "\<not> prefix [45, 45, 45, 10, 10, 10] (blank_after_fence s)"
proof
  assume p: "prefix [45, 45, 45, 10, 10, 10] (blank_after_fence s)"
  have lead: "prefix [10] (blank_after_fence t) \<Longrightarrow> prefix [10] t" for t
    using fence_leading [of t] by (cases t; cases "blank_after_fence t") (auto split: if_splits)
  have m: "\<not> prefix [45, 45, 45, 10, 10] s"
  proof
    assume f: "prefix [45, 45, 45, 10, 10] s"
    then obtain c cs where s: "s = c # cs" by (cases s) auto
    define r where "r = dropWhile (\<lambda>x. x = 10) (drop 4 cs)"
    from p have "prefix [10] (blank_after_fence r)"
      using f unfolding s fence_match [OF f [unfolded s]] r_def by simp
    then have "prefix [10] r" by (rule lead)
    then have h: "r \<noteq> []" "hd r = 10" by (cases r; simp)+
    have "r \<noteq> [] \<Longrightarrow> \<not> hd r = 10" unfolding r_def by (rule hd_dropWhile)
    with h show False by simp
  qed
  from fence_hd_inv [OF p] obtain s1 where s: "s = 45 # s1" by blast
  have e: "blank_after_fence (45 # s1) = 45 # blank_after_fence s1"
    using m unfolding s by (rule fence_skip)
  from p have p1: "prefix [45, 45, 10, 10, 10] (blank_after_fence s1)"
    unfolding s e by simp
  from fence_hd_inv [OF p1] obtain s2 where s1: "s1 = 45 # s2" by blast
  have m1: "\<not> prefix [45, 45, 45, 10, 10] s1"
  proof
    assume f: "prefix [45, 45, 45, 10, 10] s1"
    from p1 show False unfolding s1 fence_match [OF f [unfolded s1]] by simp
  qed
  have e1: "blank_after_fence (45 # s2) = 45 # blank_after_fence s2"
    using m1 unfolding s1 by (rule fence_skip)
  from p1 have p2: "prefix [45, 10, 10, 10] (blank_after_fence s2)"
    unfolding s1 e1 by simp
  from fence_hd_inv [OF p2] obtain s3 where s2: "s2 = 45 # s3" by blast
  have m2: "\<not> prefix [45, 45, 45, 10, 10] s2"
  proof
    assume f: "prefix [45, 45, 45, 10, 10] s2"
    from p2 show False unfolding s2 fence_match [OF f [unfolded s2]] by simp
  qed
  have e2: "blank_after_fence (45 # s3) = 45 # blank_after_fence s3"
    using m2 unfolding s2 by (rule fence_skip)
  from p2 have p3: "prefix [10, 10, 10] (blank_after_fence s3)"
    unfolding s2 e2 by simp
  have "prefix (replicate 3 10) (blank_after_fence s3)" using p3 by (simp add: numeral_eq_Suc)
  then have "prefix (replicate 3 10) s3"
    unfolding prefix_replicate_run fence_leading .
  then have "prefix [10, 10] s3" by (auto simp: numeral_eq_Suc prefix_def)
  with m show False unfolding s s1 s2 by simp
qed

lemma fence_once: "\<not> sublist [45, 45, 45, 10, 10, 10] (blank_after_fence s)"
proof (induction s rule: blank_after_fence.induct)
  case 1
  show ?case by simp
next
  case (2 c cs)
  have here: "\<not> prefix [45, 45, 45, 10, 10, 10] (blank_after_fence (c # cs))"
    by (rule fence_head_once)
  show ?case
  proof (cases "prefix [45, 45, 45, 10, 10] (c # cs)")
    case True
    from here 2(1) [OF True] show ?thesis
      unfolding fence_match [OF True] by (simp add: sublist_Cons_right)
  next
    case False
    from here 2(2) [OF False] show ?thesis
      unfolding fence_skip [OF False] by (simp add: sublist_Cons_right)
  qed
qed

lemma fence_fixed: "\<not> sublist [45, 45, 45, 10, 10, 10] s \<Longrightarrow> blank_after_fence s = s"
proof (induction s rule: blank_after_fence.induct)
  case 1
  show ?case by simp
next
  case (2 c cs)
  show ?case
  proof (cases "prefix [45, 45, 45, 10, 10] (c # cs)")
    case True
    then obtain x where x: "c # cs = [45, 45, 45, 10, 10] @ x" by (auto simp: prefix_def)
    then have d: "drop 4 cs = x" by simp
    from 2(3) have "\<not> prefix [45, 45, 45, 10, 10, 10] (c # cs)"
      using prefix_imp_sublist by blast
    with x have "\<not> prefix [10] x" by simp
    then have dw: "dropWhile (\<lambda>x. x = 10) x = x" by (cases x) auto
    have "\<not> sublist [45, 45, 45, 10, 10, 10] x"
      using 2(3) unfolding x by (simp add: sublist_Cons_right)
    with 2(1) [OF True] have "blank_after_fence x = x" by (simp add: d dw)
    then show ?thesis unfolding fence_match [OF True] d dw using x by simp
  next
    case False
    from 2(3) have "\<not> sublist [45, 45, 45, 10, 10, 10] cs" by (simp add: sublist_Cons_right)
    from 2(2) [OF False this] show ?thesis unfolding fence_skip [OF False] by simp
  qed
qed

lemma bullet_prefix_Cons: "bullet_prefix label = 45 # 32 # 42 # 42 # label @ [42, 42, 65306]"
  by (simp add: bullet_prefix_def)

lemma bullet_prefix_plain:
  assumes "plain_label label" "x \<in> set (bullet_prefix label)"
  shows "\<not> isLineTerminator x"
proof -
  from assms(2) have "x = 45 \<or> x = 32 \<or> x = 42 \<or> x = 65306 \<or> x \<in> set label"
    unfolding bullet_prefix_def by auto
  moreover have "\<not> isLineTerminator 45" "\<not> isLineTerminator 32" "\<not> isLineTerminator 42"
    "\<not> isLineTerminator 65306"
    by (simp_all add: isLineTerminator_def)
  moreover have "x \<in> set label \<Longrightarrow> \<not> isLineTerminator x"
    using assms(1) by (simp add: plain_label_def list_all_iff)
  ultimately show ?thesis by blast
qed

lemma bullet_not_at_terminator:
  assumes "isLineTerminator c"
  shows "\<not> prefix (bullet_prefix label) (c # cs)"
proof
  assume "prefix (bullet_prefix label) (c # cs)"
  then have "c = 45" by (simp add: bullet_prefix_Cons)
  moreover have "\<not> isLineTerminator 45" by (simp add: isLineTerminator_def)
  ultimately show False using assms by simp
qed

lemma bullet_not_at_empty: "\<not> prefix (bullet_prefix label) []"
  by (simp add: bullet_prefix_Cons)

declare remove_labeled.simps(2) [simp del]

lemma labeled_skip:
  assumes "\<not> (bol \<and> prefix (bullet_prefix label) (c # cs))"
  shows "remove_labeled label bol (c # cs) = c # remove_labeled label (isLineTerminator c) cs"
  by (subst remove_labeled.simps(2)) (simp only: assms if_False)

lemma labeled_match:
  assumes "bol" "prefix (bullet_prefix label) (c # cs)"
  shows "remove_labeled label bol (c # cs) =
     remove_labeled label False
       (dropWhile (\<lambda>x. \<not> isLineTerminator x) (drop (length (bullet_prefix label)) (c # cs)))"
  by (subst remove_labeled.simps(2)) (simp only: assms simp_thms if_True)

lemma labeled_mid: "remove_labeled label False (c # cs) = c # remove_labeled label (isLineTerminator c) cs"
  by (rule labeled_skip) simp

lemma prefix_takeWhile_iff:
  "(\<And>x. x \<in> set p \<Longrightarrow> P x) \<Longrightarrow> prefix p xs \<longleftrightarrow> prefix p (takeWhile P xs)"
proof (induction p arbitrary: xs)
  case Nil
  show ?case by simp
next
  case (Cons a p)
  then have "P a" by simp
  have IH: "prefix p ys \<longleftrightarrow> prefix p (takeWhile P ys)" for ys
    using Cons by simp
  show ?case
  proof (cases xs)
    case Nil
    then show ?thesis by simp
  next
    case (Cons b ys)
    with \<open>P a\<close> IH [of ys] show ?thesis by auto
  qed
qed

lemma labeled_first_line:
  "takeWhile (\<lambda>x. \<not> isLineTerminator x) (remove_labeled label False s) =
   takeWhile (\<lambda>x. \<not> isLineTerminator x) s"
proof (induction s)
  case Nil
  show ?case by simp
next
  case (Cons c cs)
  show ?case
  proof (cases "isLineTerminator c")
    case True
    then show ?thesis by (simp add: labeled_mid)
  next
    case False
    with Cons show ?thesis by (simp add: labeled_mid)
  qed
qed

lemma bullet_after_labeled:
  assumes "plain_label l"
  shows "prefix (bullet_prefix l) (remove_labeled q False s) \<longleftrightarrow> prefix (bullet_prefix l) s"
proof -
  have line: "prefix (bullet_prefix l) t \<longleftrightarrow>
        prefix (bullet_prefix l) (takeWhile (\<lambda>x. \<not> isLineTerminator x) t)" for t
    by (rule prefix_takeWhile_iff) (rule bullet_prefix_plain [OF assms])
  show ?thesis
    unfolding line [of "remove_labeled q False s"] line [of s] labeled_first_line ..
qed

lemma labeled_free_upgrade:
  "labeled_free l False t \<Longrightarrow> \<not> prefix (bullet_prefix l) t \<Longrightarrow> labeled_free l True t"
  by (cases t) simp_all

lemma labeled_free_append:
  "labeled_free l bol (xs @ ys) \<Longrightarrow> xs \<noteq> [] \<Longrightarrow> labeled_free l (isLineTerminator (last xs)) ys"
proof (induction xs arbitrary: bol)
  case Nil
  then show ?case by simp
next
  case (Cons x xs)
  show ?case
  proof (cases "xs = []")
    case True
    with Cons.prems show ?thesis by simp
  next
    case False
    from Cons.prems have "labeled_free l (isLineTerminator x) (xs @ ys)" by simp
    from Cons.IH [OF this False] False show ?thesis by simp
  qed
qed

lemma rest_of_line:
  "dropWhile (\<lambda>x. \<not> isLineTerminator x) s = [] \<or>
   isLineTerminator (hd (dropWhile (\<lambda>x. \<not> isLineTerminator x) s))"
  using hd_dropWhile [of "\<lambda>x. \<not> isLineTerminator x" s] by blast

lemma no_bullet_at_rest_of_line:
  "\<not> prefix (bullet_prefix l) (dropWhile (\<lambda>x. \<not> isLineTerminator x) s)"
proof (cases "dropWhile (\<lambda>x. \<not> isLineTerminator x) s")
  case Nil
  show ?thesis unfolding Nil by (rule bullet_not_at_empty)
next
  case (Cons a as)
  then have "isLineTerminator a" using rest_of_line [of s] by simp
  then show ?thesis unfolding Cons by (rule bullet_not_at_terminator)
qed

lemma labeled_fixed: "labeled_free l bol s \<Longrightarrow> remove_labeled l bol s = s"
proof (induction s arbitrary: bol)
  case Nil
  show ?case by simp
next
  case (Cons c cs)
  then have a: "\<not> (bol \<and> prefix (bullet_prefix l) (c # cs))"
    and b: "labeled_free l (isLineTerminator c) cs"
    by simp_all
  have "remove_labeled l bol (c # cs) = c # remove_labeled l (isLineTerminator c) cs"
    using a by (rule labeled_skip)
  also have "remove_labeled l (isLineTerminator c) cs = cs" using b by (rule Cons.IH)
  finally show ?case .
qed

lemma line_split:
  "take n s @ takeWhile P (drop n s) @ dropWhile P (drop n s) = s"
  by simp

lemma labeled_free_rest_of_line:
  assumes free: "labeled_free l bol (c # cs)" and pre: "prefix (bullet_prefix q) (c # cs)"
  shows "labeled_free l False
           (dropWhile (\<lambda>x. \<not> isLineTerminator x) (drop (length (bullet_prefix q)) (c # cs)))"
proof -
  let ?n = "length (bullet_prefix q)"
  let ?P = "\<lambda>x. \<not> isLineTerminator x"
  let ?xs = "take ?n (c # cs) @ takeWhile ?P (drop ?n (c # cs))"
  have tk: "take ?n (c # cs) = bullet_prefix q"
    using pre by (auto simp: prefix_def)
  have ne: "?xs \<noteq> []" unfolding tk by (simp add: bullet_prefix_Cons)
  have "\<not> isLineTerminator (last ?xs)"
  proof (cases "takeWhile ?P (drop ?n (c # cs)) = []")
    case True
    then have "last ?xs = 65306" unfolding tk by (simp add: bullet_prefix_Cons)
    then show ?thesis by (simp add: isLineTerminator_def)
  next
    case False
    then have "last ?xs \<in> set (takeWhile ?P (drop ?n (c # cs)))" by simp
    from set_takeWhileD [OF this] show ?thesis by simp
  qed
  moreover have "labeled_free l bol (?xs @ dropWhile ?P (drop ?n (c # cs)))"
    using free by simp
  from labeled_free_append [OF this ne]
  have "labeled_free l (isLineTerminator (last ?xs)) (dropWhile ?P (drop ?n (c # cs)))" .
  ultimately show ?thesis by (simp only:)
qed

lemma labeled_settled:
  "plain_label l \<Longrightarrow> labeled_free l bol (remove_labeled l bol s)"
proof (induction l bol s rule: remove_labeled.induct)
  case (1 label bol)
  show ?case by simp
next
  case (2 label bol c cs)
  show ?case
  proof (cases "bol \<and> prefix (bullet_prefix label) (c # cs)")
    case True
    let ?rest = "dropWhile (\<lambda>x. \<not> isLineTerminator x) (drop (length (bullet_prefix label)) (c # cs))"
    from True have b: "bol = True" and p: "prefix (bullet_prefix label) (c # cs)" by simp_all
    have eq: "remove_labeled label True (c # cs) = remove_labeled label False ?rest"
      by (rule labeled_match) (simp_all only: p)
    have "labeled_free label False (remove_labeled label False ?rest)"
      using 2(1) [OF True] 2(3) by simp
    moreover have "\<not> prefix (bullet_prefix label) (remove_labeled label False ?rest)"
      unfolding bullet_after_labeled [OF 2(3)] by (rule no_bullet_at_rest_of_line)
    ultimately have "labeled_free label True (remove_labeled label False ?rest)"
      by (rule labeled_free_upgrade)
    then show ?thesis unfolding b eq .
  next
    case False
    have eq: "remove_labeled label bol (c # cs) = c # remove_labeled label (isLineTerminator c) cs"
      using False by (rule labeled_skip)
    have tail: "labeled_free label (isLineTerminator c) (remove_labeled label (isLineTerminator c) cs)"
      using 2(2) [OF False] 2(3) by simp
    have "\<not> (bol \<and> prefix (bullet_prefix label) (c # remove_labeled label (isLineTerminator c) cs))"
    proof (cases "isLineTerminator c")
      case True
      then show ?thesis by (simp add: bullet_not_at_terminator)
    next
      case nt: False
      have "prefix (bullet_prefix label) (remove_labeled label False (c # cs)) \<longleftrightarrow>
            prefix (bullet_prefix label) (c # cs)"
        by (rule bullet_after_labeled [OF 2(3)])
      with False nt show ?thesis by (simp add: labeled_mid)
    qed
    with tail show ?thesis unfolding eq by simp
  qed
qed

lemma labeled_kept:
  assumes "plain_label l"
  shows "labeled_free l bol s \<Longrightarrow> labeled_free l bol (remove_labeled q bol s)"
proof (induction q bol s rule: remove_labeled.induct)
  case (1 label bol)
  show ?case by simp
next
  case (2 label bol c cs)
  show ?case
  proof (cases "bol \<and> prefix (bullet_prefix label) (c # cs)")
    case True
    let ?rest = "dropWhile (\<lambda>x. \<not> isLineTerminator x) (drop (length (bullet_prefix label)) (c # cs))"
    from True have b: "bol = True" and p: "prefix (bullet_prefix label) (c # cs)" by simp_all
    have eq: "remove_labeled label True (c # cs) = remove_labeled label False ?rest"
      by (rule labeled_match) (simp_all only: p)
    have "labeled_free l False ?rest"
      using 2(3) p by (rule labeled_free_rest_of_line)
    from 2(1) [OF True this] have "labeled_free l False (remove_labeled label False ?rest)" .
    moreover have "\<not> prefix (bullet_prefix l) (remove_labeled label False ?rest)"
      unfolding bullet_after_labeled [OF assms] by (rule no_bullet_at_rest_of_line)
    ultimately have "labeled_free l True (remove_labeled label False ?rest)"
      by (rule labeled_free_upgrade)
    then show ?thesis unfolding b eq .
  next
    case False
    have eq: "remove_labeled label bol (c # cs) = c # remove_labeled label (isLineTerminator c) cs"
      using False by (rule labeled_skip)
    from 2(3) have here: "\<not> (bol \<and> prefix (bullet_prefix l) (c # cs))"
      and "labeled_free l (isLineTerminator c) cs" by simp_all
    from 2(2) [OF False this(2)]
    have tail: "labeled_free l (isLineTerminator c) (remove_labeled label (isLineTerminator c) cs)" .
    have "\<not> (bol \<and> prefix (bullet_prefix l) (c # remove_labeled label (isLineTerminator c) cs))"
    proof (cases "isLineTerminator c")
      case True
      then show ?thesis by (simp add: bullet_not_at_terminator)
    next
      case nt: False
      have "prefix (bullet_prefix l) (remove_labeled label False (c # cs)) \<longleftrightarrow>
            prefix (bullet_prefix l) (c # cs)"
        by (rule bullet_after_labeled [OF assms])
      with here nt show ?thesis by (simp add: labeled_mid)
    qed
    with tail show ?thesis unfolding eq by simp
  qed
qed

lemma terminator_10: "isLineTerminator 10"
  by (simp add: isLineTerminator_def)

lemma collapse_first_line:
  "takeWhile (\<lambda>x. \<not> isLineTerminator x) (collapse_blank_lines s) =
   takeWhile (\<lambda>x. \<not> isLineTerminator x) s"
proof (induction s rule: collapse_blank_lines.induct)
  case 1
  show ?case by simp
next
  case (2 c cs)
  show ?case
  proof (cases "prefix [10, 10, 10, 10] (c # cs)")
    case True
    then have "c = 10" by simp
    then show ?thesis unfolding collapse_match [OF True] by (simp add: terminator_10)
  next
    case False
    with 2(2) [OF False] show ?thesis unfolding collapse_skip [OF False] by simp
  qed
qed

lemma fence_first_line:
  "takeWhile (\<lambda>x. \<not> isLineTerminator x) (blank_after_fence s) =
   takeWhile (\<lambda>x. \<not> isLineTerminator x) s"
proof (induction s rule: blank_after_fence.induct)
  case 1
  show ?case by simp
next
  case (2 c cs)
  show ?case
  proof (cases "prefix [45, 45, 45, 10, 10] (c # cs)")
    case True
    then obtain x where x: "c # cs = 45 # 45 # 45 # 10 # 10 # x" by (auto simp: prefix_def)
    have "\<not> isLineTerminator 45" by (simp add: isLineTerminator_def)
    then show ?thesis unfolding fence_match [OF True] unfolding x by (simp add: terminator_10)
  next
    case False
    with 2(2) [OF False] show ?thesis unfolding fence_skip [OF False] by simp
  qed
qed

lemma bullet_line:
  assumes "plain_label l"
  shows "prefix (bullet_prefix l) t \<longleftrightarrow>
         prefix (bullet_prefix l) (takeWhile (\<lambda>x. \<not> isLineTerminator x) t)"
  by (rule prefix_takeWhile_iff) (rule bullet_prefix_plain [OF assms])

lemma bullet_after_collapse:
  assumes "plain_label l"
  shows "prefix (bullet_prefix l) (collapse_blank_lines s) \<longleftrightarrow> prefix (bullet_prefix l) s"
  unfolding bullet_line [OF assms, of "collapse_blank_lines s"] bullet_line [OF assms, of s]
    collapse_first_line ..

lemma bullet_after_fence:
  assumes "plain_label l"
  shows "prefix (bullet_prefix l) (blank_after_fence s) \<longleftrightarrow> prefix (bullet_prefix l) s"
  unfolding bullet_line [OF assms, of "blank_after_fence s"] bullet_line [OF assms, of s]
    fence_first_line ..

lemma labeled_free_after_newlines:
  assumes "labeled_free l bol (c # cs)" "c = 10"
  shows "labeled_free l True (dropWhile (\<lambda>x. x = 10) cs)"
proof -
  let ?xs = "c # takeWhile (\<lambda>x. x = 10) cs"
  have "last ?xs = 10"
  proof (cases "takeWhile (\<lambda>x. x = 10) cs = []")
    case True
    with assms(2) show ?thesis by simp
  next
    case False
    then have "last ?xs \<in> set (takeWhile (\<lambda>x. x = 10) cs)" by simp
    from set_takeWhileD [OF this] show ?thesis by simp
  qed
  moreover have "labeled_free l bol (?xs @ dropWhile (\<lambda>x. x = 10) cs)" using assms(1) by simp
  from labeled_free_append [OF this]
  have "labeled_free l (isLineTerminator (last ?xs)) (dropWhile (\<lambda>x. x = 10) cs)" by simp
  ultimately show ?thesis by (simp add: terminator_10)
qed

lemma labeled_free_collapse:
  assumes "plain_label l"
  shows "labeled_free l bol s \<Longrightarrow> labeled_free l bol (collapse_blank_lines s)"
proof (induction s arbitrary: bol rule: collapse_blank_lines.induct)
  case 1
  show ?case by simp
next
  case (2 c cs)
  show ?case
  proof (cases "prefix [10, 10, 10, 10] (c # cs)")
    case True
    then have c: "c = 10" by simp
    from labeled_free_after_newlines [OF 2(3) c]
    have "labeled_free l True (dropWhile (\<lambda>x. x = 10) cs)" .
    from 2(1) [OF True this]
    have "labeled_free l True (collapse_blank_lines (dropWhile (\<lambda>x. x = 10) cs))" .
    then show ?thesis
      unfolding collapse_match [OF True]
      by (simp add: terminator_10 bullet_not_at_terminator)
  next
    case False
    from 2(3) have here: "\<not> (bol \<and> prefix (bullet_prefix l) (c # cs))"
      and "labeled_free l (isLineTerminator c) cs" by simp_all
    from 2(2) [OF False this(2)]
    have tail: "labeled_free l (isLineTerminator c) (collapse_blank_lines cs)" .
    have "prefix (bullet_prefix l) (collapse_blank_lines (c # cs)) \<longleftrightarrow>
          prefix (bullet_prefix l) (c # cs)"
      by (rule bullet_after_collapse [OF assms])
    with here have "\<not> (bol \<and> prefix (bullet_prefix l) (c # collapse_blank_lines cs))"
      unfolding collapse_skip [OF False] by simp
    with tail show ?thesis unfolding collapse_skip [OF False] by simp
  qed
qed

lemma labeled_free_fence:
  assumes "plain_label l"
  shows "labeled_free l bol s \<Longrightarrow> labeled_free l bol (blank_after_fence s)"
proof (induction s arbitrary: bol rule: blank_after_fence.induct)
  case 1
  show ?case by simp
next
  case (2 c cs)
  show ?case
  proof (cases "prefix [45, 45, 45, 10, 10] (c # cs)")
    case True
    then obtain x where x: "c # cs = 45 # 45 # 45 # 10 # 10 # x" by (auto simp: prefix_def)
    then have d: "drop 4 cs = x" by auto
    from 2(3) have "labeled_free l True (10 # x)"
      unfolding x by (simp add: terminator_10)
    from labeled_free_after_newlines [OF this]
    have "labeled_free l True (dropWhile (\<lambda>x. x = 10) x)" by simp
    with 2(1) [OF True] have "labeled_free l True (blank_after_fence (dropWhile (\<lambda>x. x = 10) x))"
      unfolding d by simp
    moreover have "\<not> prefix (bullet_prefix l) (45 # 45 # t)" for t
      by (simp add: bullet_prefix_Cons)
    ultimately show ?thesis
      unfolding fence_match [OF True] d
      by (simp add: terminator_10 bullet_not_at_terminator)
  next
    case False
    from 2(3) have here: "\<not> (bol \<and> prefix (bullet_prefix l) (c # cs))"
      and "labeled_free l (isLineTerminator c) cs" by simp_all
    from 2(2) [OF False this(2)]
    have tail: "labeled_free l (isLineTerminator c) (blank_after_fence cs)" .
    have "prefix (bullet_prefix l) (blank_after_fence (c # cs)) \<longleftrightarrow>
          prefix (bullet_prefix l) (c # cs)"
      by (rule bullet_after_fence [OF assms])
    with here have "\<not> (bol \<and> prefix (bullet_prefix l) (c # blank_after_fence cs))"
      unfolding fence_skip [OF False] by simp
    with tail show ?thesis unfolding fence_skip [OF False] by simp
  qed
qed

lemma clean_steps:
  "clean c = blank_after_fence (collapse_blank_lines (remove_all_labeled (remove_metadata c)))"
  by (simp add: clean_def remove_all_labeled_def)

lemma plain_labels:
  "plain_label label_word_count" "plain_label label_pov" "plain_label label_timeline"
  "plain_label label_theme" "plain_label label_scene"
  by (simp_all add: plain_label_def label_word_count_def label_pov_def label_timeline_def
      label_theme_def label_scene_def isLineTerminator_def str_def)

lemma remove_all_labeled_free:
  "labeled_free label_word_count True (remove_all_labeled s)"
  "labeled_free label_pov True (remove_all_labeled s)"
  "labeled_free label_timeline True (remove_all_labeled s)"
  "labeled_free label_theme True (remove_all_labeled s)"
  "labeled_free label_scene True (remove_all_labeled s)"
  unfolding remove_all_labeled_def
  by (intro labeled_kept labeled_settled plain_labels)+

lemma remove_all_labeled_fixed:
  assumes "labeled_free label_word_count True s" "labeled_free label_pov True s"
    "labeled_free label_timeline True s" "labeled_free label_theme True s"
    "labeled_free label_scene True s"
  shows "remove_all_labeled s = s"
  unfolding remove_all_labeled_def by (simp only: assms labeled_fixed)

lemma clean_free:
  assumes "plain_label l" "labeled_free l True (remove_all_labeled (remove_metadata c))"
  shows "labeled_free l True (clean c)"
  unfolding clean_steps by (intro labeled_free_fence labeled_free_collapse assms)

lemma clean_no_long_run: "\<not> sublist [10, 10, 10, 10] (clean c)"
  unfolding clean_steps using fence_no_long_run collapse_no_long_run by blast

lemma clean_fence_once: "\<not> sublist [45, 45, 45, 10, 10, 10] (clean c)"
  unfolding clean_steps by (rule fence_once)

lemma clean_again:
  assumes "remove_metadata (clean c) = clean c"
  shows "clean (clean c) = clean c"
proof -
  have "remove_all_labeled (clean c) = clean c"
    by (intro remove_all_labeled_fixed clean_free plain_labels remove_all_labeled_free)
  moreover have "collapse_blank_lines (clean c) = clean c"
    using clean_no_long_run by (rule collapse_fixed)
  moreover have "blank_after_fence (clean c) = clean c"
    using clean_fence_once by (rule fence_fixed)
  ultimately show ?thesis
    using assms by (simp add: clean_steps [of "clean c"])
qed

lemma dropWhile_none: "ys = [] \<or> hd ys \<noteq> a \<Longrightarrow> dropWhile (\<lambda>x. x = a) ys = ys"
  by (cases ys) auto

lemma takeWhile_none: "ys = [] \<or> hd ys \<noteq> a \<Longrightarrow> takeWhile (\<lambda>x. x = a) ys = []"
  by (cases ys) auto

lemma dropWhile_run: "ys = [] \<or> hd ys \<noteq> a \<Longrightarrow> dropWhile (\<lambda>x. x = a) (replicate n a @ ys) = ys"
  by (induction n) (simp_all add: dropWhile_none)

lemma takeWhile_run_append:
  "ys = [] \<or> hd ys \<noteq> a \<Longrightarrow> takeWhile (\<lambda>x. x = a) (replicate n a @ ys) = replicate n a"
  by (induction n) (simp_all add: takeWhile_none)

lemma last_dropWhile:
  "xs \<noteq> [] \<Longrightarrow> \<not> P (last xs) \<Longrightarrow> dropWhile P xs \<noteq> [] \<and> last (dropWhile P xs) = last xs"
  by (induction xs) (auto split: if_splits)

lemma collapse_short_run:
  assumes "ys = [] \<or> hd ys \<noteq> 10"
  shows "n < 4 \<Longrightarrow> collapse_blank_lines (replicate n 10 @ ys) = replicate n 10 @ collapse_blank_lines ys"
proof (induction n)
  case 0
  show ?case by simp
next
  case (Suc n)
  have "length (takeWhile (\<lambda>x. x = 10) (replicate (Suc n) 10 @ ys)) = Suc n"
    by (simp add: takeWhile_run_append [OF assms])
  with Suc.prems have "\<not> prefix [10, 10, 10, 10] (10 # replicate n 10 @ ys)"
    unfolding prefix_nl4 by simp
  from collapse_skip [OF this] Suc show ?case by simp
qed

lemma collapse_run:
  assumes "ys = [] \<or> hd ys \<noteq> 10"
  shows "collapse_blank_lines (replicate n 10 @ ys) = replicate (min n 3) 10 @ collapse_blank_lines ys"
proof (cases "n < 4")
  case True
  then have "min n 3 = n" by simp
  with collapse_short_run [OF assms True] show ?thesis by simp
next
  case False
  then obtain m where n: "n = Suc m" and m: "3 \<le> m" by (cases n) auto
  have "length (takeWhile (\<lambda>x. x = 10) (replicate n 10 @ ys)) = n"
    by (simp add: takeWhile_run_append [OF assms])
  with False have "prefix [10, 10, 10, 10] (10 # replicate m 10 @ ys)"
    unfolding prefix_nl4 n by simp
  from collapse_match [OF this] have
    "collapse_blank_lines (replicate n 10 @ ys) =
       10 # 10 # 10 # collapse_blank_lines (dropWhile (\<lambda>x. x = 10) (replicate m 10 @ ys))"
    by (simp add: n)
  moreover have "min n 3 = 3" using False by simp
  ultimately show ?thesis by (simp add: dropWhile_run [OF assms] nl3 [symmetric])
qed

lemma collapse_append:
  "xs = [] \<or> last xs \<noteq> 10 \<Longrightarrow>
   collapse_blank_lines (xs @ zs) = collapse_blank_lines xs @ collapse_blank_lines zs"
proof (induction xs rule: collapse_blank_lines.induct)
  case 1
  show ?case by simp
next
  case (2 c cs)
  then have l: "last (c # cs) \<noteq> 10" by simp
  have mem: "last (c # cs) \<in> set (c # cs)" by (rule last_in_set) simp
  have tw: "takeWhile (\<lambda>x. x = 10) ((c # cs) @ zs) = takeWhile (\<lambda>x. x = 10) (c # cs)"
    using mem l by (rule takeWhile_append1)
  have same: "prefix [10, 10, 10, 10] ((c # cs) @ zs) \<longleftrightarrow> prefix [10, 10, 10, 10] (c # cs)"
    unfolding prefix_nl4 tw ..
  show ?case
  proof (cases "prefix [10, 10, 10, 10] (c # cs)")
    case True
    then have "cs \<noteq> []" by auto
    with l have lc: "last cs \<noteq> 10" and mc: "last cs \<in> set cs" by simp_all
    have dw: "dropWhile (\<lambda>x. x = 10) (cs @ zs) = dropWhile (\<lambda>x. x = 10) cs @ zs"
      using mc lc by (rule dropWhile_append1)
    have "dropWhile (\<lambda>x. x = 10) cs \<noteq> [] \<and> last (dropWhile (\<lambda>x. x = 10) cs) = last cs"
      using \<open>cs \<noteq> []\<close> lc by (intro last_dropWhile [where P = "\<lambda>x. x = 10"]) simp_all
    with lc have "dropWhile (\<lambda>x. x = 10) cs = [] \<or> last (dropWhile (\<lambda>x. x = 10) cs) \<noteq> 10"
      by (simp only: simp_thms)
    from 2(1) [OF True this] have
      "collapse_blank_lines (dropWhile (\<lambda>x. x = 10) cs @ zs) =
         collapse_blank_lines (dropWhile (\<lambda>x. x = 10) cs) @ collapse_blank_lines zs" .
    moreover have "prefix [10, 10, 10, 10] (c # (cs @ zs))" using True same by simp
    from collapse_match [OF this] have
      "collapse_blank_lines ((c # cs) @ zs) =
         10 # 10 # 10 # collapse_blank_lines (dropWhile (\<lambda>x. x = 10) (cs @ zs))" by simp
    ultimately show ?thesis unfolding collapse_match [OF True] dw by simp
  next
    case False
    then have "\<not> prefix [10, 10, 10, 10] (c # (cs @ zs))" using same by simp
    from collapse_skip [OF this]
    have e: "collapse_blank_lines ((c # cs) @ zs) = c # collapse_blank_lines (cs @ zs)" by simp
    show ?thesis
    proof (cases "cs = []")
      case True
      with e show ?thesis unfolding collapse_skip [OF False] by simp
    next
      case ne: False
      with l have "cs = [] \<or> last cs \<noteq> 10" by simp
      from 2(2) [OF False this] e show ?thesis unfolding collapse_skip [OF False] by simp
    qed
  qed
qed

lemma collapse_context:
  assumes "xs = [] \<or> last xs \<noteq> 10" "ys = [] \<or> hd ys \<noteq> 10"
  shows "collapse_blank_lines (xs @ replicate n 10 @ ys) =
         collapse_blank_lines xs @ replicate (min n 3) 10 @ collapse_blank_lines ys"
  by (simp only: collapse_append [OF assms(1)] collapse_run [OF assms(2)])

lemma fence_run:
  assumes "0 < n" "ys = [] \<or> hd ys \<noteq> 10"
  shows "blank_after_fence (str ''---'' @ [10] @ replicate n 10 @ ys) =
         str ''---'' @ [10, 10] @ blank_after_fence ys"
proof -
  from assms(1) obtain m where n: "n = Suc m" by (cases n) auto
  have s: "str ''---'' @ [10] @ replicate n 10 @ ys = 45 # 45 # 45 # 10 # 10 # replicate m 10 @ ys"
    by (simp add: str_def n)
  have "prefix [45, 45, 45, 10, 10] (45 # 45 # 45 # 10 # 10 # replicate m 10 @ ys)" by simp
  from fence_match [OF this] show ?thesis
    unfolding s by (simp add: dropWhile_run [OF assms(2)] str_def)
qed

lemmas clean_eval = clean_def str_def match_metadata_def ascii_upper_def isWhiteSpace_def
  remove_labeled.simps bullet_prefix_def label_word_count_def label_pov_def label_timeline_def
  label_theme_def label_scene_def isLineTerminator_def

lemma clean_three_newlines:
  "clean (str ''a'' @ [10, 10, 10] @ str ''b'') = str ''a'' @ [10, 10, 10] @ str ''b''"
  by (simp add: clean_eval)

lemma clean_fence_example:
  "clean (str ''---'' @ [10, 10, 10] @ str ''x'') = str ''---'' @ [10, 10] @ str ''x''"
  by (simp add: clean_eval)

lemma clean_split_tag: "clean split_tag_chapter = str ''<metadata>y</metadata>''"
  by (simp add: split_tag_chapter_def clean_eval)

lemma clean_whole_tag: "clean (str ''<metadata>y</metadata>'') = []"
  by (simp add: clean_eval)

lemma clean_draft: "clean draft_chapter = [10, 10, 10] @ str ''Text''"
  by (simp add: draft_chapter_def clean_eval)

lemma draft_settled: "remove_metadata (clean draft_chapter) = clean draft_chapter"
  unfolding clean_draft by (simp add: str_def match_metadata_def ascii_upper_def)

lemma match_metadata_no_tag: "s = [] \<or> hd s \<noteq> 60 \<Longrightarrow> match_metadata s = None"
  by (cases s) (auto simp: match_metadata_def str_def ascii_upper_def)

lemma remove_metadata_no_tag: "60 \<notin> set s \<Longrightarrow> remove_metadata s = s"
  by (induction s) (simp_all add: match_metadata_no_tag)

lemma set_remove_labeled: "set (remove_labeled l bol s) \<subseteq> set s"
proof (induction l bol s rule: remove_labeled.induct)
  case (1 label bol)
  show ?case by simp
next
  case (2 label bol c cs)
  show ?case
  proof (cases "bol \<and> prefix (bullet_prefix label) (c # cs)")
    case True
    let ?rest = "dropWhile (\<lambda>x. \<not> isLineTerminator x) (drop (length (bullet_prefix label)) (c # cs))"
    from True have p: "prefix (bullet_prefix label) (c # cs)" and b: "bol = True" by simp_all
    have "set ?rest \<subseteq> set (c # cs)"
      by (meson set_dropWhileD set_drop_subset subsetD subsetI)
    with 2(1) [OF True] show ?thesis unfolding b labeled_match [OF TrueI p] by blast
  next
    case False
    with 2(2) [OF False] show ?thesis unfolding labeled_skip [OF False] by auto
  qed
qed

lemma set_collapse: "set (collapse_blank_lines s) \<subseteq> set s"
proof (induction s rule: collapse_blank_lines.induct)
  case 1
  show ?case by simp
next
  case (2 c cs)
  show ?case
  proof (cases "prefix [10, 10, 10, 10] (c # cs)")
    case True
    then have c: "c = 10" by simp
    have "set (dropWhile (\<lambda>x. x = 10) cs) \<subseteq> set cs" by (meson set_dropWhileD subsetI)
    with 2(1) [OF True]
    have "set (collapse_blank_lines (dropWhile (\<lambda>x. x = 10) cs)) \<subseteq> set cs" by blast
    then show ?thesis unfolding collapse_match [OF True] using c by auto
  next
    case False
    with 2(2) [OF False] show ?thesis unfolding collapse_skip [OF False] by auto
  qed
qed

lemma set_fence: "set (blank_after_fence s) \<subseteq> set s"
proof (induction s rule: blank_after_fence.induct)
  case 1
  show ?case by simp
next
  case (2 c cs)
  show ?case
  proof (cases "prefix [45, 45, 45, 10, 10] (c # cs)")
    case True
    then obtain x where x: "c # cs = 45 # 45 # 45 # 10 # 10 # x" by (auto simp: prefix_def)
    then have d: "drop 4 cs = x" by auto
    have "set (dropWhile (\<lambda>x. x = 10) x) \<subseteq> set x" by (meson set_dropWhileD subsetI)
    with 2(1) [OF True] have "set (blank_after_fence (dropWhile (\<lambda>x. x = 10) x)) \<subseteq> set x"
      unfolding d by blast
    then show ?thesis unfolding fence_match [OF True] d unfolding x by auto
  next
    case False
    with 2(2) [OF False] show ?thesis unfolding fence_skip [OF False] by auto
  qed
qed

lemma clean_no_tag:
  assumes "60 \<notin> set c"
  shows "remove_metadata (clean c) = clean c"
proof -
  have "set (remove_all_labeled s) \<subseteq> set s" for s
    unfolding remove_all_labeled_def using set_remove_labeled by (meson subset_trans)
  then have "set (clean c) \<subseteq> set (remove_metadata c)"
    unfolding clean_steps using set_fence set_collapse by (meson subset_trans)
  with assms have "60 \<notin> set (clean c)" by (auto simp: remove_metadata_no_tag)
  then show ?thesis by (rule remove_metadata_no_tag)
qed

text \<open>
  C3, as the code has it. A second pass of the cleaner changes nothing, provided the
  first pass has left no metadata block behind, that is, provided the removal of metadata
  blocks leaves the cleaned content as it is. For such a file the second call of
  \<open>cleanChapter\<close> reports no change and writes nothing. Every content without the
  character \<open><\<close> is of this kind.
\<close>

theorem cleaning_idempotent:
  "(remove_metadata (clean c) = clean c \<longrightarrow> clean (clean c) = clean c) \<and>
   (files p = Some c \<and> remove_metadata (clean c) = clean c \<longrightarrow>
      (\<exists>files' changed. cleanChapter files p = Inr (files', changed) \<and>
         cleanChapter files' p = Inr (files', False))) \<and>
   (60 \<notin> set c \<longrightarrow> clean (clean c) = clean c)"
proof (intro conjI impI)
  assume "remove_metadata (clean c) = clean c"
  then show "clean (clean c) = clean c" by (rule clean_again)
next
  assume a: "files p = Some c \<and> remove_metadata (clean c) = clean c"
  then have again: "clean (clean c) = clean c" by (simp add: clean_again)
  show "\<exists>files' changed. cleanChapter files p = Inr (files', changed) \<and>
         cleanChapter files' p = Inr (files', False)"
  proof (cases "clean c = c")
    case True
    with a have "cleanChapter files p = Inr (files, False)" by (simp add: cleanChapter_def)
    then show ?thesis by blast
  next
    case False
    with a have 1: "cleanChapter files p = Inr (files(p \<mapsto> clean c), True)"
      by (simp add: cleanChapter_def)
    have 2: "cleanChapter (files(p \<mapsto> clean c)) p = Inr (files(p \<mapsto> clean c), False)"
      using again by (simp add: cleanChapter_def)
    from 1 2 show ?thesis by blast
  qed
next
  assume "60 \<notin> set c"
  then have "remove_metadata (clean c) = clean c" by (rule clean_no_tag)
  then show "clean (clean c) = clean c" by (rule clean_again)
qed

theorem cleaning_idempotent_witness:
  "remove_metadata (clean draft_chapter) = clean draft_chapter \<and>
   clean (clean draft_chapter) = clean draft_chapter \<and>
   clean draft_chapter \<noteq> draft_chapter \<and>
   (\<exists>files' changed. cleanChapter [str ''Chap_1.md'' \<mapsto> draft_chapter] (str ''Chap_1.md'') = Inr (files', changed) \<and>
      cleanChapter files' (str ''Chap_1.md'') = Inr (files', False)) \<and>
   clean (clean (str ''a'' @ replicate 5 10 @ str ''b'')) = clean (str ''a'' @ replicate 5 10 @ str ''b'')"
proof -
  have "clean draft_chapter \<noteq> draft_chapter"
    unfolding clean_draft by (simp add: draft_chapter_def str_def)
  moreover have "60 \<notin> set (str ''a'' @ replicate 5 10 @ str ''b'')"
    by (simp add: str_def)
  ultimately show ?thesis
    using cleaning_idempotent [of draft_chapter "[str ''Chap_1.md'' \<mapsto> draft_chapter]" "str ''Chap_1.md''"]
      cleaning_idempotent [of "str ''a'' @ replicate 5 10 @ str ''b''" Map.empty "[]"]
      draft_settled
    by simp
qed

text \<open>
  C3 as stated fails: removing the metadata block inside \<open><meta...data>\<close> joins the two
  halves of an opening tag, so the first pass leaves a metadata block that only the
  second pass removes.
\<close>

theorem cleaning_twice_counterexample:
  "clean split_tag_chapter = str ''<metadata>y</metadata>'' \<and> clean (clean split_tag_chapter) = []"
  by (simp only: clean_split_tag clean_whole_tag simp_thms)

text \<open>
  C4, as the code has it. The cleaned content never has four or more newlines in a row.
  The step that collapses blank lines turns every run of four or more newlines into
  three (two blank lines) and leaves a run of up to three newlines as it is.
\<close>

theorem blank_line_collapse:
  "\<not> sublist [10, 10, 10, 10] (clean c) \<and>
   ((xs = [] \<or> last xs \<noteq> 10) \<and> (ys = [] \<or> hd ys \<noteq> 10) \<longrightarrow>
      collapse_blank_lines (xs @ replicate n 10 @ ys) =
        collapse_blank_lines xs @ replicate (min n 3) 10 @ collapse_blank_lines ys)"
  using clean_no_long_run collapse_context by blast

theorem blank_line_collapse_witness:
  "collapse_blank_lines (str ''a'' @ replicate 5 10 @ str ''b'') = str ''a'' @ [10, 10, 10] @ str ''b'' \<and>
   collapse_blank_lines (str ''a'' @ replicate 3 10 @ str ''b'') = str ''a'' @ [10, 10, 10] @ str ''b''"
proof -
  have a: "str ''a'' = [] \<or> last (str ''a'') \<noteq> 10" and b: "str ''b'' = [] \<or> hd (str ''b'') \<noteq> 10"
    by (simp_all add: str_def)
  have c: "collapse_blank_lines (str ''a'') = str ''a''" "collapse_blank_lines (str ''b'') = str ''b''"
    by (simp_all add: str_def)
  have r: "replicate (min 5 3) 10 = [10, 10, 10::nat]" "replicate (min 3 3) 10 = [10, 10, 10::nat]"
    by (simp_all add: numeral_eq_Suc)
  show ?thesis
    using blank_line_collapse [of "str ''a''" "str ''a''" "str ''b''" 5]
      blank_line_collapse [of "str ''a''" "str ''a''" "str ''b''" 3] a b
    by (simp only: c r simp_thms)
qed

text \<open>
  C4 as stated fails: a run of exactly three newlines is left at three, not collapsed
  to two.
\<close>

theorem three_newlines_counterexample:
  "clean (str ''a'' @ [10, 10, 10] @ str ''b'') = str ''a'' @ [10, 10, 10] @ str ''b''"
  by (rule clean_three_newlines)

text \<open>
  C5. The last step of the cleaner stands under the comment
  \<open>Remove blank lines right after frontmatter\<close>, which is what the specification says of the
  line \<open>---\<close>; the step is \<open>replace(/(---\n)\n+/g, '$1\n')\<close>, and its replacement writes a
  newline back after the group, so a blank line stays after the line \<open>---\<close>. The cleaner
  at three contents: \<open>---\<close> followed by two blank lines and \<open>x\<close> keeps one blank line; so
  does the closing \<open>---\<close> of a front matter block followed by two blank lines and the
  body; and a single blank line after the closing \<open>---\<close> is not removed at all.
\<close>

theorem fence_blank_line_kept:
  "clean (str ''---'' @ [10, 10, 10] @ str ''x'') = str ''---'' @ [10, 10] @ str ''x'' \<and>
   clean (str ''---'' @ [10] @ str ''title: T'' @ [10] @ str ''---'' @ [10, 10, 10] @ str ''Body'') =
     str ''---'' @ [10] @ str ''title: T'' @ [10] @ str ''---'' @ [10, 10] @ str ''Body'' \<and>
   clean (str ''---'' @ [10] @ str ''title: T'' @ [10] @ str ''---'' @ [10, 10] @ str ''Body'') =
     str ''---'' @ [10] @ str ''title: T'' @ [10] @ str ''---'' @ [10, 10] @ str ''Body''"
  by (simp add: clean_eval)

end
